theory Spec2Isabelle
  imports Complex_Main "HOL-Library.Log_Nat" "HOL-Library.AList"
begin

section \<open>Errors\<close>

text \<open>
  The exceptions of \<^verbatim>\<open>opennmt/runner.py\<close> that a model below can raise. \<open>RuntimeError\<close>
  stands for any exception of an external call (the model, the dataset, TensorFlow);
  \<open>NotFoundError\<close> is \<^verbatim>\<open>tf.errors.NotFoundError\<close>.
\<close>

datatype error =
    ValueError
  | ZeroDivisionError
  | OverflowError
  | TypeError
  | FileNotFoundError
  | OSError
  | RuntimeError
  | DuplicateIndexError
  | NotFoundError

section \<open>Python floats\<close>

text \<open>
  \<^verbatim>\<open>_count_batch_accum\<close> divides in floating point. A Python float is an IEEE 754
  binary64 number: a rational \<open>m * 2 ^ s\<close> with \<open>\<bar>m\<bar> < 2 ^ 53\<close> and \<open>- 1074 \<le> s\<close>.
  \<open>double_round\<close> is rounding to the nearest such number, ties to the even significand;
  the operations that can leave the finite range check for it themselves.
\<close>

definition round_half_even :: "rat \<Rightarrow> int" where
  "round_half_even x =
     (let f = \<lfloor>x\<rfloor>; d = x - of_int f
      in if d < 1 / 2 then f else if 1 / 2 < d then f + 1 else if even f then f else f + 1)"

text \<open>The binary exponent \<open>\<lfloor>log\<^sub>2 x\<rfloor>\<close> of a positive rational, from the bit lengths.\<close>

definition ilog2 :: "rat \<Rightarrow> int" where
  "ilog2 x = (case quotient_of x of (a, b) \<Rightarrow>
     (let d = bitlen a - bitlen b in if 2 powi d \<le> x then d else d - 1))"

definition double_round_pos :: "rat \<Rightarrow> rat" where
  "double_round_pos x =
     (let s = max (ilog2 x - 52) (- 1074)
      in of_int (round_half_even (x / 2 powi s)) * 2 powi s)"

definition double_round :: "rat \<Rightarrow> rat" where
  "double_round x =
     (if x = 0 then 0 else if 0 < x then double_round_pos x else - double_round_pos (- x))"

text \<open>
  \<^verbatim>\<open>float(n)\<close> of an integer: correctly rounded, \<^verbatim>\<open>OverflowError\<close> when the rounded
  value reaches \<open>2 ^ 1024\<close> (compared on the integer part, \<open>2 ^ 1024\<close> being an integer).
\<close>

definition py_float :: "int \<Rightarrow> error + rat" where
  "py_float n =
     (let r = double_round (of_int n)
      in if 2 ^ 1024 \<le> \<lfloor>\<bar>r\<bar>\<rfloor> then Inl OverflowError else Inr r)"

text \<open>
  \<^verbatim>\<open>x / n\<close> of a float by an integer: the integer is converted first, a zero divisor
  raises. The quotient of a finite float by a non-zero integer cannot overflow.
\<close>

definition float_truediv :: "rat \<Rightarrow> int \<Rightarrow> error + rat" where
  "float_truediv x n =
     (case py_float n of
        Inl e \<Rightarrow> Inl e
      | Inr y \<Rightarrow> if y = 0 then Inl ZeroDivisionError else Inr (double_round (x / y)))"

definition math_ceil :: "rat \<Rightarrow> int" where
  "math_ceil x = \<lceil>x\<rceil>"

section \<open>Accumulation count\<close>

text \<open>
  \<^verbatim>\<open>
  def _count_batch_accum(batch_size, target_batch_size, num_replicas=1):
    return int(math.ceil(float(target_batch_size) / (batch_size * num_replicas)))
  \<close>
\<close>

definition count_batch_accum :: "int \<Rightarrow> int \<Rightarrow> int \<Rightarrow> error + int" where
  "count_batch_accum bsz target_batch_size num_replicas =
     (case py_float target_batch_size of
        Inl e \<Rightarrow> Inl e
      | Inr t \<Rightarrow>
          (case float_truediv t (bsz * num_replicas) of
             Inl e \<Rightarrow> Inl e
           | Inr q \<Rightarrow> Inr (math_ceil q)))"

section \<open>Configuration, files and trial processes\<close>

text \<open>
  The entries of the run configuration that the modelled functions read or write.
  \<open>None\<close> is a missing key or a \<^verbatim>\<open>None\<close> value, which \<^verbatim>\<open>dict.get\<close> does not tell
  apart; \<open>save_checkpoints_steps\<close> keeps both, since \<^verbatim>\<open>get(key, 5000)\<close> does.
\<close>

record config =
  model_dir :: string
  batch_size :: "int option"
  batch_type :: string
  effective_batch_size :: "int option"
  gradients_accum :: "int option"
  train_steps :: "int option"
  save_checkpoints_steps :: "int option option"
  save_summary_steps :: "int option"
  average_last_checkpoints :: "int option"

text \<open>
  A trial is the command line
  \<^verbatim>\<open>python -m opennmt.bin.main train --config P --num_gpus N [--session_config Q]\<close>.
\<close>

record trial_args =
  config_arg :: string
  num_gpus_arg :: int
  session_config_arg :: "string option"

text \<open>
  The outside world of the batch size search: the files that exist, the trial processes
  that were started, each with the configuration its file held, and the file system
  that holds each path. \<^verbatim>\<open>tf.io.gfile\<close> reaches every file system, \<^verbatim>\<open>os.remove\<close> the
  local one only; a path whose directory does not exist is on no file system.
\<close>

datatype file_system = LocalFS | OtherFS

record world =
  files :: "string set"
  spawned :: "(trial_args \<times> config) list"
  mount :: "string \<Rightarrow> file_system option"

text \<open>
  \<^verbatim>\<open>subprocess.Popen(args).wait()\<close>: the exit code of the trial, or the exception of a
  process that could not be started.
\<close>

type_synonym trial_runner = "trial_args \<Rightarrow> config \<Rightarrow> error + int"

definition path_join :: "string \<Rightarrow> string \<Rightarrow> string" where
  "path_join d f = (if d = [] then f else if last d = CHR ''/'' then d @ f else d @ ''/'' @ f)"

text \<open>
  \<^verbatim>\<open>with tf.io.gfile.GFile(p, mode="w") as f: f.write(...)\<close> creates or replaces the
  file; it raises \<^verbatim>\<open>NotFoundError\<close> when the directory of \<open>p\<close> does not exist. A write
  into a directory that exists is taken to succeed.
\<close>

definition write_file :: "string \<Rightarrow> world \<Rightarrow> error + world" where
  "write_file p w =
     (case mount w p of
        None \<Rightarrow> Inl NotFoundError
      | Some fs \<Rightarrow> Inr (w\<lparr>files := insert p (files w)\<rparr>))"

text \<open>
  \<^verbatim>\<open>os.remove(p)\<close> removes a file of the local file system, and raises when there is
  none. The removal of a file that is there is taken to succeed.
\<close>

definition os_remove :: "string \<Rightarrow> world \<Rightarrow> (error + unit) \<times> world" where
  "os_remove p w =
     (if p \<in> files w \<and> mount w p = Some LocalFS
      then (Inr (), w\<lparr>files := files w - {p}\<rparr>)
      else (Inl FileNotFoundError, w))"

section \<open>Batch size search\<close>

record tune_state =
  tune_config :: config
  min_batch_size :: int
  max_batch_size :: int

text \<open>
  The body of the \<^verbatim>\<open>while\<close> loop of \<^verbatim>\<open>_auto_tune_batch_size\<close>; \<open>trial_config\<close>
  is its first half, the configuration written for the trial:
  \<^verbatim>\<open>
    batch_size = (max_batch_size + min_batch_size) // 2
    config["train"]["batch_size"] = batch_size
    if config["train"].get("effective_batch_size") is not None:
      config["params"]["gradients_accum"] = _count_batch_accum(
          batch_size, config["train"]["effective_batch_size"], num_replicas=num_devices)
    with tf.io.gfile.GFile(config_path, mode="wb") as config_file:
      yaml.dump(config, config_file)
    with open(os.devnull, "w") as devnull:
      process = subprocess.Popen(args, stdout=devnull, stderr=devnull)
      exit_code = process.wait()
    if exit_code != 0:
      max_batch_size = batch_size - 1
    else:
      min_batch_size = batch_size
  \<close>
\<close>

definition trial_config :: "int \<Rightarrow> tune_state \<Rightarrow> error + config" where
  "trial_config num_devices s =
     (let bsz = (max_batch_size s + min_batch_size s) div 2;
          cfg = (tune_config s)\<lparr>batch_size := Some bsz\<rparr>
      in case effective_batch_size cfg of
           None \<Rightarrow> Inr cfg
         | Some target \<Rightarrow>
             (case count_batch_accum bsz target num_devices of
                Inl e \<Rightarrow> Inl e
              | Inr n \<Rightarrow> Inr (cfg\<lparr>gradients_accum := Some n\<rparr>)))"

definition tune_iteration ::
  "trial_runner \<Rightarrow> trial_args \<Rightarrow> string \<Rightarrow> int \<Rightarrow> tune_state \<Rightarrow> world
     \<Rightarrow> (error + tune_state) \<times> world" where
  "tune_iteration run_trial args config_path num_devices s w =
     (case trial_config num_devices s of
        Inl e \<Rightarrow> (Inl e, w)
      | Inr cfg \<Rightarrow>
          (case write_file config_path w of
             Inl e \<Rightarrow> (Inl e, w)
           | Inr w' \<Rightarrow>
               (let bsz = (max_batch_size s + min_batch_size s) div 2
                in case run_trial args cfg of
                     Inl e \<Rightarrow> (Inl e, w')
                   | Inr exit_code \<Rightarrow>
                       (Inr (if exit_code \<noteq> 0
                             then s\<lparr>tune_config := cfg, max_batch_size := bsz - 1\<rparr>
                             else s\<lparr>tune_config := cfg, min_batch_size := bsz\<rparr>),
                        w'\<lparr>spawned := spawned w' @ [(args, cfg)]\<rparr>))))"

text \<open>
  \<^verbatim>\<open>while max_batch_size - min_batch_size > min_range: ...\<close>. The loop need not end;
  \<open>None\<close> is a search that runs forever.
\<close>

partial_function (option) tune_loop ::
  "trial_runner \<Rightarrow> trial_args \<Rightarrow> string \<Rightarrow> int \<Rightarrow> int \<Rightarrow> tune_state \<Rightarrow> world
     \<Rightarrow> ((error + tune_state) \<times> world) option" where
  "tune_loop run_trial args config_path num_devices min_range s w =
     (if max_batch_size s - min_batch_size s > min_range
      then (case tune_iteration run_trial args config_path num_devices s w of
              (Inl e, w') \<Rightarrow> Some (Inl e, w')
            | (Inr s', w') \<Rightarrow> tune_loop run_trial args config_path num_devices min_range s' w')
      else Some (Inr s, w))"

declare tune_loop.simps [code]

text \<open>
  The two scratch files of the search, in the model directory, and their removal after
  the loop:
  \<^verbatim>\<open>
    os.remove(config_path)
    if session_config_path is not None:
      os.remove(session_config_path)
  \<close>
\<close>

definition autotuner_config_path :: "config \<Rightarrow> string" where
  "autotuner_config_path cfg = path_join (model_dir cfg) ''batch_size_autotuner.yml''"

definition autotuner_session_config_path :: "config \<Rightarrow> string" where
  "autotuner_session_config_path cfg = path_join (model_dir cfg) ''batch_size_autotuner.proto''"

definition cleanup_temporary_files ::
  "string \<Rightarrow> string option \<Rightarrow> world \<Rightarrow> (error + unit) \<times> world" where
  "cleanup_temporary_files config_path session_config_path w =
     (case os_remove config_path w of
        (Inl e, w') \<Rightarrow> (Inl e, w')
      | (Inr u, w') \<Rightarrow>
          (case session_config_path of
             None \<Rightarrow> (Inr (), w')
           | Some p \<Rightarrow> os_remove p w'))"

text \<open>
  \<^verbatim>\<open>_auto_tune_batch_size\<close>: the trial configuration, the session configuration file
  (written when \<^verbatim>\<open>gpu_memory_fraction < 1\<close>), the search, and the removal of the scratch
  files after it. There is no \<^verbatim>\<open>try\<close>: an exception leaves the function where it is
  raised. The trial process is taken not to touch the two scratch files, nor the
  directory that holds them.
\<close>

definition auto_tune_batch_size ::
  "trial_runner \<Rightarrow> config \<Rightarrow> int \<Rightarrow> int \<Rightarrow> int \<Rightarrow> int \<Rightarrow> int \<Rightarrow> rat \<Rightarrow> world
     \<Rightarrow> ((error + int) \<times> world) option" where
  "auto_tune_batch_size run_trial cfg min_size max_size min_range sample_iterations
       num_devices gpu_memory_fraction w =
     (let cfg' = cfg\<lparr>save_checkpoints_steps := Some None,
                     average_last_checkpoints := Some 0,
                     train_steps := Some sample_iterations\<rparr>;
          config_path = autotuner_config_path cfg';
          session_config_path =
            (if gpu_memory_fraction < 1 then Some (autotuner_session_config_path cfg')
             else None);
          args = \<lparr>config_arg = config_path, num_gpus_arg = num_devices,
                  session_config_arg = session_config_path\<rparr>
      in case (case session_config_path of None \<Rightarrow> Inr w | Some p \<Rightarrow> write_file p w) of
           Inl e \<Rightarrow> Some (Inl e, w)
         | Inr w1 \<Rightarrow>
             (case tune_loop run_trial args config_path num_devices min_range
                     \<lparr>tune_config = cfg', min_batch_size = min_size, max_batch_size = max_size\<rparr>
                     w1 of
                None \<Rightarrow> None
              | Some (Inl e, w2) \<Rightarrow> Some (Inl e, w2)
              | Some (Inr s, w2) \<Rightarrow>
                  Some (case cleanup_temporary_files config_path session_config_path w2 of
                          (Inl e, w3) \<Rightarrow> (Inl e, w3)
                        | (Inr u, w3) \<Rightarrow> (Inr (min_batch_size s), w3))))"

section \<open>Finalizing the training parameters\<close>

text \<open>
  \<^verbatim>\<open>Runner._finalize_training_parameters\<close>. The runner sets
  \<^verbatim>\<open>_num_replicas = _num_devices = num_devices\<close>; the search is called with its defaults
  \<^verbatim>\<open>min_batch_size=1024, min_range=256, sample_iterations=5, gpu_memory_fraction=0.8\<close>.
\<close>

definition set_gradients_accum :: "int \<Rightarrow> config \<Rightarrow> error + config" where
  "set_gradients_accum num_replicas cfg =
     (case effective_batch_size cfg of
        None \<Rightarrow> Inr cfg
      | Some target \<Rightarrow>
          (case batch_size cfg of
             None \<Rightarrow> Inl TypeError
           | Some bsz \<Rightarrow>
               (case count_batch_accum bsz target num_replicas of
                  Inl e \<Rightarrow> Inl e
                | Inr n \<Rightarrow> Inr (cfg\<lparr>gradients_accum := Some n\<rparr>))))"

definition finalize_training_parameters ::
  "trial_runner \<Rightarrow> int \<Rightarrow> config \<Rightarrow> world \<Rightarrow> ((error + config) \<times> world) option" where
  "finalize_training_parameters run_trial num_devices cfg w =
     (if batch_size cfg = None \<or> batch_size cfg = Some 0
      then
        if batch_type cfg = ''examples'' then Some (Inl ValueError, w)
        else
          (let max_size = (case effective_batch_size cfg of
                             None \<Rightarrow> 16384
                           | Some target \<Rightarrow> min 16384 target)
           in case auto_tune_batch_size run_trial cfg 1024 max_size 256 5 num_devices (4 / 5) w of
                None \<Rightarrow> None
              | Some (Inl e, w') \<Rightarrow> Some (Inl e, w')
              | Some (Inr bsz, w') \<Rightarrow>
                  Some (set_gradients_accum num_devices (cfg\<lparr>batch_size := Some bsz\<rparr>), w'))
      else Some (set_gradients_accum num_devices cfg, w))"

section \<open>Training\<close>

text \<open>
  The checkpoints as \<^verbatim>\<open>Runner.train\<close> sees them: \<^verbatim>\<open>tf.io.gfile.isdir\<close>,
  \<^verbatim>\<open>tf.train.latest_checkpoint\<close> of a directory, the \<^verbatim>\<open>latest_checkpoint\<close> that a
  \<^verbatim>\<open>tf.train.CheckpointManager\<close> of a directory has recovered, and
  \<^verbatim>\<open>checkpoint.restore\<close>, which gives the optimizer its saved iteration count or raises.
\<close>

record checkpoints =
  isdir :: "string \<Rightarrow> bool"
  latest_checkpoint :: "string \<Rightarrow> string option"
  manager_latest_checkpoint :: "string \<Rightarrow> string option"
  restore :: "string \<Rightarrow> error + int"

text \<open>
  How the loop of \<^verbatim>\<open>train\<close> is reached: not at all (the restored model has already made
  \<open>train_steps\<close> iterations, \<^verbatim>\<open>return output_dir\<close>), or with the optimizer at some
  iteration count.
\<close>

datatype train_start = Already_Trained string | Enter_Loop int

text \<open>
  The checkpoint that \<^verbatim>\<open>train\<close> restores, in the statements between the creation of
  the checkpoint manager and the loop; the list is the calls of \<^verbatim>\<open>checkpoint.restore\<close>.
  A new optimizer is at iteration 0. (\<open>last_step\<close> is \<^verbatim>\<open>train_steps\<close>, a name that the
  configuration record has taken.)
  \<^verbatim>\<open>
    if checkpoint_path is not None and tf.io.gfile.isdir(checkpoint_path):
      checkpoint_path = tf.train.latest_checkpoint(checkpoint_path)
    elif checkpoint_path is None and checkpoint_manager.latest_checkpoint is not None:
      checkpoint_path = checkpoint_manager.latest_checkpoint
    if checkpoint_path is not None:
      checkpoint.restore(checkpoint_path)
      if train_steps is not None and optimizer.iterations.numpy() >= train_steps:
        return output_dir
  \<close>
\<close>

definition restore_checkpoint ::
  "checkpoints \<Rightarrow> string \<Rightarrow> int option \<Rightarrow> string option \<Rightarrow> (error + train_start) \<times> string list" where
  "restore_checkpoint env output_dir last_step checkpoint_path =
     (let checkpoint_path =
            (case checkpoint_path of
               Some p \<Rightarrow> if isdir env p then latest_checkpoint env p else Some p
             | None \<Rightarrow>
                 (case manager_latest_checkpoint env output_dir of
                    Some q \<Rightarrow> Some q
                  | None \<Rightarrow> None))
      in case checkpoint_path of
           None \<Rightarrow> (Inr (Enter_Loop 0), [])
         | Some p \<Rightarrow>
             (case restore env p of
                Inl e \<Rightarrow> (Inl e, [p])
              | Inr n \<Rightarrow>
                  (case last_step of
                     None \<Rightarrow> (Inr (Enter_Loop n), [p])
                   | Some t \<Rightarrow>
                       if t \<le> n then (Inr (Already_Trained output_dir), [p])
                       else (Inr (Enter_Loop n), [p]))))"

text \<open>
  The state of the loop: the accumulation buffers \<^verbatim>\<open>gradients\<close>, the calls of
  \<^verbatim>\<open>optimizer.apply_gradients\<close> with the values they were given, \<^verbatim>\<open>optimizer.iterations\<close>,
  and the checkpoint numbers saved. A gradient is a value of a type with an addition and
  a zero (\<^verbatim>\<open>tf.zeros_like\<close>); no law of arithmetic is assumed of them.
\<close>

record ('g, 'v) train_state =
  gradients :: "'g list"
  applied :: "('g \<times> 'v) list list"
  iterations :: int
  saved :: "int list"

text \<open>
  The accumulation of \<^verbatim>\<open>_step\<close>, given the gradients of the step:
  \<^verbatim>\<open>
    if not gradients:
      for step_gradient in step_gradients:
        gradients.append(tf.Variable(tf.zeros_like(step_gradient), trainable=False))
    for gradient, step_gradient in zip(gradients, step_gradients):
      gradient.assign_add(step_gradient)
  \<close>
\<close>

definition step :: "'g::{plus,zero} list \<Rightarrow> ('g, 'v) train_state \<Rightarrow> ('g, 'v) train_state" where
  "step step_gradients st =
     (let buffers = (if gradients st = [] then map (\<lambda>g. 0) step_gradients else gradients st)
      in st\<lparr>gradients := map2 (+) buffers step_gradients
                              @ drop (length step_gradients) buffers\<rparr>)"

text \<open>
  \<^verbatim>\<open>
    optimizer.apply_gradients(zip(gradients, variables))
    for gradient in gradients:
      gradient.assign(tf.zeros_like(gradient))
  \<close>
\<close>

definition apply_gradients ::
  "'v list \<Rightarrow> ('g::{plus,zero}, 'v) train_state \<Rightarrow> ('g, 'v) train_state" where
  "apply_gradients variables st =
     st\<lparr>applied := applied st @ [zip (gradients st) variables],
        iterations := iterations st + 1,
        gradients := map (\<lambda>g. 0) (gradients st)\<rparr>"

text \<open>
  \<^verbatim>\<open>a % b\<close> of Python integers, and of a NumPy integer (\<^verbatim>\<open>optimizer.iterations.numpy()\<close>)
  by a Python integer: NumPy gives 0 for the divisor 0, with a warning.
\<close>

definition py_mod :: "int \<Rightarrow> int option \<Rightarrow> error + int" where
  "py_mod a b =
     (case b of
        None \<Rightarrow> Inl TypeError
      | Some m \<Rightarrow> if m = 0 then Inl ZeroDivisionError else Inr (a mod m))"

definition numpy_mod :: "int \<Rightarrow> int option \<Rightarrow> error + int" where
  "numpy_mod a b =
     (case b of
        None \<Rightarrow> Inl TypeError
      | Some m \<Rightarrow> if m = 0 then Inr 0 else Inr (a mod m))"

text \<open>
  The loop of \<^verbatim>\<open>train\<close> from the batch number \<open>i\<close> on. An element of the list is
  what \<^verbatim>\<open>optimizer.get_gradients\<close> returns in \<^verbatim>\<open>_step\<close> for a batch, one gradient for each
  variable; an exception of the dataset or of the model ends the loop where the end of
  the list does. The loop returns the exception if one was raised, the number of steps
  made, and the state. (\<open>save_every\<close> is \<^verbatim>\<open>save_checkpoints_steps\<close> and \<open>last_step\<close> is
  \<^verbatim>\<open>train_steps\<close>.) Reporting and saving change nothing else of the state.
  \<^verbatim>\<open>
    for i, (source, target) in enumerate(dataset):
      loss, num_words = _step(source, target)
      if i == 0 or (i + 1) % accum_count == 0:
        _apply_gradients()
      ...
      step = optimizer.iterations.numpy()
      if step % report_every == 0:
        last_report_time = _report_training_status(...)
      if step % save_checkpoints_steps == 0 or step == train_steps:
        path = checkpoint_manager.save(checkpoint_number=step)
      if step == train_steps:
        break
  \<close>
\<close>

fun train_loop ::
  "'v list \<Rightarrow> int option \<Rightarrow> int option \<Rightarrow> int option \<Rightarrow> int option \<Rightarrow> nat
     \<Rightarrow> 'g::{plus,zero} list list \<Rightarrow> ('g, 'v) train_state
     \<Rightarrow> error option \<times> nat \<times> ('g, 'v) train_state" where
  "train_loop variables accum_count report_every save_every last_step i [] st =
     (None, i, st)"
| "train_loop variables accum_count report_every save_every last_step i
       (step_gradients # dataset) st =
     (let st1 = step step_gradients st
      in case (if i = 0 then Inr 0 else py_mod (int i + 1) accum_count) of
           Inl e \<Rightarrow> (Some e, Suc i, st1)
         | Inr r \<Rightarrow>
             (let st2 = (if r = 0 then apply_gradients variables st1 else st1);
                  step_number = iterations st2
              in case numpy_mod step_number report_every of
                   Inl e \<Rightarrow> (Some e, Suc i, st2)
                 | Inr r1 \<Rightarrow>
                     (case numpy_mod step_number save_every of
                        Inl e \<Rightarrow> (Some e, Suc i, st2)
                      | Inr r2 \<Rightarrow>
                          (let st3 = (if r2 = 0 \<or> Some step_number = last_step
                                      then st2\<lparr>saved := saved st2 @ [step_number]\<rparr>
                                      else st2)
                           in if Some step_number = last_step then (None, Suc i, st3)
                              else train_loop variables accum_count report_every
                                     save_every last_step (Suc i) dataset st3))))"

text \<open>
  The state before the first step: \<^verbatim>\<open>gradients = []\<close>, nothing applied or saved, and the
  optimizer at the iteration \<open>n\<close>.
\<close>

definition new_train_state :: "int \<Rightarrow> ('g, 'v) train_state" where
  "new_train_state n = \<lparr>gradients = [], applied = [], iterations = n, saved = []\<rparr>"

section \<open>Inference and scoring\<close>

subsection \<open>The order restorer\<close>

text \<open>
  Modelled from the spec: \<^verbatim>\<open>misc.OrderRestorer\<close> is not among the sources, and this is
  the restorer of section 4.4 of the specification: the next index that is expected,
  starting at 0, and the pending buffer of the items that arrived ahead of it.
\<close>

record 'p order_restorer =
  next_index :: int
  elements :: "(int \<times> 'p) list"

text \<open>Modelled from the spec: a new restorer expects the index 0 and holds nothing.\<close>

definition new_restorer :: "'p order_restorer" where
  "new_restorer = \<lparr>next_index = 0, elements = []\<rparr>"

text \<open>
  Modelled from the spec: ``drain the pending buffer for as long as it contains the next
  expected index (repeatedly release and increment)''. The result is the restorer and
  the payloads released, in the order of their release.
\<close>

function drain :: "'p order_restorer \<Rightarrow> 'p order_restorer \<times> 'p list" where
  "drain r =
     (case map_of (elements r) (next_index r) of
        None \<Rightarrow> (r, [])
      | Some p \<Rightarrow>
          (case drain (r\<lparr>next_index := next_index r + 1,
                         elements := AList.delete (next_index r) (elements r)\<rparr>) of
             (r', out) \<Rightarrow> (r', p # out)))"
  by pat_completeness auto

termination drain
proof (relation "measure (\<lambda>r. length (elements r))")
  show "wf (measure (\<lambda>r :: 'p order_restorer. length (elements r)))" by simp
next
  fix r :: "'p order_restorer" and p :: 'p
  assume "map_of (elements r) (next_index r) = Some p"
  then have "(next_index r, p) \<in> set (elements r)" by (rule map_of_SomeD)
  then have "length (filter (\<lambda>(k', _). next_index r \<noteq> k') (elements r))
               < length (elements r)"
    by (rule length_filter_less) simp
  then show "(r\<lparr>next_index := next_index r + 1,
                elements := AList.delete (next_index r) (elements r)\<rparr>, r)
             \<in> measure (\<lambda>r. length (elements r))"
    by (simp add: AList.delete_eq)
qed

text \<open>
  Modelled from the spec: ``if the index is the next expected one, release the item,
  increment, then drain; if it is larger, buffer it; fail with
  \<^verbatim>\<open>DuplicateIndexError\<close> if it is smaller, or already in the buffer''. The result is
  the restorer and the payloads released by this push, in the order of their release.
\<close>

definition push :: "int \<Rightarrow> 'p \<Rightarrow> 'p order_restorer \<Rightarrow> error + ('p order_restorer \<times> 'p list)" where
  "push i p r =
     (if i = next_index r
      then (case drain (r\<lparr>next_index := next_index r + 1\<rparr>) of
              (r', out) \<Rightarrow> Inr (r', p # out))
      else if i < next_index r then Inl DuplicateIndexError
      else (case map_of (elements r) i of
              Some q \<Rightarrow> Inl DuplicateIndexError
            | None \<Rightarrow> Inr (r\<lparr>elements := elements r @ [(i, p)]\<rparr>, [])))"

subsection \<open>The output stream\<close>

text \<open>
  \<^verbatim>\<open>sys.stdout\<close> or the file opened with \<^verbatim>\<open>io.open(..., mode="w")\<close>: the records written
  so far, and whether \<^verbatim>\<open>close\<close> was called.
\<close>

record 'p out_stream =
  stream_file :: "string option"
  written :: "'p list"
  stream_closed :: bool

definition sys_stdout :: "'p out_stream" where
  "sys_stdout = \<lparr>stream_file = None, written = [], stream_closed = False\<rparr>"

definition io_open :: "string \<Rightarrow> 'p out_stream" where
  "io_open f = \<lparr>stream_file = Some f, written = [], stream_closed = False\<rparr>"

definition stream_close :: "'p out_stream \<Rightarrow> 'p out_stream" where
  "stream_close s = s\<lparr>stream_closed := True\<rparr>"

subsection \<open>Inference\<close>

text \<open>
  What \<^verbatim>\<open>infer\<close> uses of a batch of predictions: its examples in the order of
  \<^verbatim>\<open>misc.extract_batches\<close>, each with its \<^verbatim>\<open>"index"\<close> if it has one, the \<^verbatim>\<open>"length"\<close>
  entries (of the first hypothesis) if there are any, and the time the model took.
\<close>

record 'p prediction =
  index :: "int option"
  content :: 'p

record 'p predictions =
  examples :: "'p prediction list"
  lengths :: "int list option"
  seconds :: rat

record 'p infer_state =
  stream :: "'p out_stream"
  ordered_writer :: "'p order_restorer option"
  total_time :: rat
  total_tokens :: int
  total_examples :: int

text \<open>
  \<^verbatim>\<open>write_fn\<close>: \<^verbatim>\<open>print_prediction\<close> writes the predictions to the stream; it is taken
  not to raise.
\<close>

definition write_fn :: "'p list \<Rightarrow> 'p infer_state \<Rightarrow> 'p infer_state" where
  "write_fn ps st = st\<lparr>stream := (stream st)\<lparr>written := written (stream st) @ ps\<rparr>\<rparr>"

text \<open>
  \<^verbatim>\<open>
      for prediction in misc.extract_batches(predictions):
        if "index" in prediction:
          if ordered_writer is None:
            ordered_writer = misc.OrderRestorer(
                index_fn=lambda prediction: prediction["index"], callback_fn=write_fn)
          ordered_writer.push(prediction)
        else:
          write_fn(prediction)
  \<close>
\<close>

fun write_predictions ::
  "'p prediction list \<Rightarrow> 'p infer_state \<Rightarrow> error option \<times> 'p infer_state" where
  "write_predictions [] st = (None, st)"
| "write_predictions (prediction # rest) st =
     (case index prediction of
        None \<Rightarrow> write_predictions rest (write_fn [content prediction] st)
      | Some i \<Rightarrow>
          (let writer = (case ordered_writer st of None \<Rightarrow> new_restorer | Some w \<Rightarrow> w)
           in case push i (content prediction) writer of
                Inl e \<Rightarrow> (Some e, st\<lparr>ordered_writer := Some writer\<rparr>)
              | Inr (writer', out) \<Rightarrow>
                  write_predictions rest (write_fn out (st\<lparr>ordered_writer := Some writer'\<rparr>))))"

text \<open>
  The loop of \<^verbatim>\<open>infer\<close> over the dataset. An element of the list is what a batch
  gives: the predictions, or the exception of the dataset or of the model.
  \<^verbatim>\<open>
    for source in dataset:
      start_time = time.time()
      predictions = _infer(source)
      end_time = time.time()
      predictions = {k:v.numpy() for k, v in six.iteritems(predictions)}
      if log_time:
        total_time += end_time - start_time
        batch_size = next(six.itervalues(predictions)).shape[0]
        total_examples += batch_size
        length = predictions.get("length")
        if length is not None:
          if len(length.shape) == 2:
            length = length[:, 0]
          total_tokens += sum(length)
      for prediction in misc.extract_batches(predictions):
        ...
  \<close>
\<close>

fun infer_loop ::
  "bool \<Rightarrow> (error + 'p predictions) list \<Rightarrow> 'p infer_state \<Rightarrow> error option \<times> 'p infer_state" where
  "infer_loop log_time [] st = (None, st)"
| "infer_loop log_time (batch # dataset) st =
     (case batch of
        Inl e \<Rightarrow> (Some e, st)
      | Inr predictions \<Rightarrow>
          (let st1 =
                 (if log_time
                  then st\<lparr>total_time := double_round (total_time st + seconds predictions),
                          total_examples := total_examples st + int (length (examples predictions)),
                          total_tokens :=
                            (case lengths predictions of
                               None \<Rightarrow> total_tokens st
                             | Some l \<Rightarrow> total_tokens st + sum_list l)\<rparr>
                  else st)
           in case write_predictions (examples predictions) st1 of
                (Some e, st2) \<Rightarrow> (Some e, st2)
              | (None, st2) \<Rightarrow> infer_loop log_time dataset st2))"

text \<open>
  The report of the times after the loop divides by the number of examples, and by the
  total time when tokens were counted:
  \<^verbatim>\<open>
    if log_time:
      tf.get_logger().info("Total prediction time (s): %f", total_time)
      tf.get_logger().info(
          "Average prediction time (s): %f", total_time / total_examples)
      if total_tokens > 0:
        tf.get_logger().info("Tokens per second: %f", total_tokens / total_time)
  \<close>
\<close>

definition log_times :: "'p infer_state \<Rightarrow> error option" where
  "log_times st =
     (if total_examples st = 0 then Some ZeroDivisionError
      else if 0 < total_tokens st \<and> total_time st = 0 then Some ZeroDivisionError
      else None)"

text \<open>
  \<^verbatim>\<open>infer\<close>, from the opening of the stream on (an exception of the statements before
  it ends \<^verbatim>\<open>infer\<close> with no stream opened). An empty file name counts as none.
  \<^verbatim>\<open>
    if predictions_file:
      stream = io.open(predictions_file, encoding="utf-8", mode="w")
    else:
      stream = sys.stdout
    ...
    if predictions_file:
      stream.close()
  \<close>
\<close>

definition infer ::
  "string option \<Rightarrow> bool \<Rightarrow> (error + 'p predictions) list \<Rightarrow> error option \<times> 'p infer_state" where
  "infer predictions_file log_time dataset =
     (let to_file = (predictions_file \<noteq> None \<and> predictions_file \<noteq> Some []);
          st0 = \<lparr>stream = (case predictions_file of
                             None \<Rightarrow> sys_stdout
                           | Some f \<Rightarrow> if f = [] then sys_stdout else io_open f),
                 ordered_writer = None, total_time = 0, total_tokens = 0, total_examples = 0\<rparr>
      in case infer_loop log_time dataset st0 of
           (Some e, st) \<Rightarrow> (Some e, st)
         | (None, st) \<Rightarrow>
             (case (if log_time then log_times st else None) of
                Some e \<Rightarrow> (Some e, st)
              | None \<Rightarrow>
                  (None, if to_file then st\<lparr>stream := stream_close (stream st)\<rparr> else st)))"

subsection \<open>Scoring\<close>

text \<open>
  The models that \<^verbatim>\<open>score\<close> tells apart with \<^verbatim>\<open>isinstance\<close>.
\<close>

datatype model_type = SequenceToSequence | LanguageModel | OtherModel

text \<open>
  The loop of \<^verbatim>\<open>score\<close>. An element of the list is what a batch gives: the formatted
  sentences of its examples, or the exception of the dataset or of the model.
  \<^verbatim>\<open>
    for source, target in dataset:
      results = _score(source, target)
      results = {k:v.numpy() for k, v in six.iteritems(results)}
      for batch in misc.extract_batches(results):
        ...
        misc.print_bytes(tf.compat.as_bytes(sentence), stream=stream)
  \<close>
\<close>

fun score_loop ::
  "(error + 'p list) list \<Rightarrow> 'p out_stream \<Rightarrow> error option \<times> 'p out_stream" where
  "score_loop [] s = (None, s)"
| "score_loop (batch # dataset) s =
     (case batch of
        Inl e \<Rightarrow> (Some e, s)
      | Inr sentences \<Rightarrow> score_loop dataset (s\<lparr>written := written s @ sentences\<rparr>))"

text \<open>
  \<^verbatim>\<open>score\<close>: the two checks, then the stream, the loop, and the closing of the file.
  The result holds no stream when none was opened.
  \<^verbatim>\<open>
    if not isinstance(self._model, (models.LanguageModel, models.SequenceToSequence)):
      raise ValueError("scoring only works for sequence to sequence or language models")
    if isinstance(self._model, models.SequenceToSequence) and not predictions_file:
      raise ValueError("predictions_file is required when scoring with a "
                       "sequence to sequence model")
    ...
    if output_file:
      stream = io.open(output_file, encoding="utf-8", mode="w")
    else:
      stream = sys.stdout
    ...
    if output_file:
      stream.close()
  \<close>
\<close>

definition score ::
  "model_type \<Rightarrow> string option \<Rightarrow> string option \<Rightarrow> (error + 'p list) list
     \<Rightarrow> error option \<times> 'p out_stream option" where
  "score model predictions_file output_file dataset =
     (if model = OtherModel then (Some ValueError, None)
      else if model = SequenceToSequence
              \<and> (predictions_file = None \<or> predictions_file = Some [])
      then (Some ValueError, None)
      else
        (let to_file = (output_file \<noteq> None \<and> output_file \<noteq> Some []);
             s0 = (case output_file of
                     None \<Rightarrow> sys_stdout
                   | Some f \<Rightarrow> if f = [] then sys_stdout else io_open f)
         in case score_loop dataset s0 of
              (Some e, s) \<Rightarrow> (Some e, Some s)
            | (None, s) \<Rightarrow> (None, Some (if to_file then stream_close s else s))))"

section \<open>Example inputs\<close>

text \<open>
  A token-batched configuration without a batch size, an empty model directory on the
  local file system, and trial runners: one whose trials succeed up to a threshold size,
  one with a fixed exit code, one that cannot start the process.
\<close>

definition example_config :: config where
  "example_config =
     \<lparr>model_dir = ''run'', batch_size = None, batch_type = ''tokens'',
      effective_batch_size = None, gradients_accum = None, train_steps = None,
      save_checkpoints_steps = None, save_summary_steps = Some 100,
      average_last_checkpoints = None\<rparr>"

definition empty_world :: world where
  "empty_world = \<lparr>files = {}, spawned = [], mount = (\<lambda>p. Some LocalFS)\<rparr>"

definition threshold_runner :: "int \<Rightarrow> trial_runner" where
  "threshold_runner t args cfg =
     Inr (case batch_size cfg of None \<Rightarrow> 1 | Some b \<Rightarrow> if b \<le> t then 0 else 1)"

definition constant_runner :: "int \<Rightarrow> trial_runner" where
  "constant_runner exit_code args cfg = Inr exit_code"

definition broken_runner :: trial_runner where
  "broken_runner args cfg = Inl OSError"

definition example_args :: trial_args where
  "example_args =
     \<lparr>config_arg = ''run/batch_size_autotuner.yml'', num_gpus_arg = 1,
      session_config_arg = Some ''run/batch_size_autotuner.proto''\<rparr>"

text \<open>A model directory \<^verbatim>\<open>run\<close> whose latest checkpoint was saved at the iteration 5000.\<close>

definition example_checkpoints :: checkpoints where
  "example_checkpoints =
     \<lparr>isdir = (\<lambda>p. p = ''run''),
      latest_checkpoint = (\<lambda>d. if d = ''run'' then Some ''run/ckpt-5000'' else None),
      manager_latest_checkpoint = (\<lambda>d. if d = ''run'' then Some ''run/ckpt-5000'' else None),
      restore = (\<lambda>p. if p = ''run/ckpt-5000'' then Inr 5000 else Inl NotFoundError)\<rparr>"

section \<open>Verification: the accumulation count\<close>

text \<open>
  The floating-point division of \<^verbatim>\<open>_count_batch_accum\<close> is exact enough for the ceiling
  as long as both integers are below \<open>2 ^ 53\<close>: the conversions are exact, and the rounded
  quotient stays on the same side of every integer as the exact one.
\<close>

lemma powi2_less_imp_less:
  assumes "(2::rat) powi m < 2 powi n" shows "m < n"
proof (rule ccontr)
  assume "\<not> m < n"
  then have "n \<le> m" by simp
  then have "(2::rat) powi n \<le> 2 powi m" by (rule power_int_increasing) simp
  with assms show False by simp
qed

lemma bitlen_powi_bounds:
  assumes "0 < a"
  shows "(2::rat) powi (bitlen a - 1) \<le> of_int a" "of_int a < (2::rat) powi bitlen a"
proof -
  from assms have pos: "1 \<le> bitlen a"
    using bitlen_alt_def [of a] by (simp add: bitlen_def floorlog_def)
  from bitlen_bounds [OF assms] have lo: "2 ^ nat (bitlen a - 1) \<le> a" and hi: "a < 2 ^ nat (bitlen a)"
    by simp_all
  from lo have "(of_int (2 ^ nat (bitlen a - 1)) :: rat) \<le> of_int a"
    by (simp only: of_int_le_iff)
  with pos show "(2::rat) powi (bitlen a - 1) \<le> of_int a"
    by (simp add: power_int_def)
  from hi have "(of_int a :: rat) < of_int (2 ^ nat (bitlen a))"
    by (simp only: of_int_less_iff)
  with pos show "of_int a < (2::rat) powi bitlen a"
    by (simp add: power_int_def)
qed

lemma ilog2_bounds:
  assumes "0 < x"
  shows "2 powi ilog2 x \<le> x" "x < 2 powi (ilog2 x + 1)"
proof -
  obtain a b where q: "quotient_of x = (a, b)" by fastforce
  then have b: "0 < b" and x: "x = of_int a / of_int b"
    by (simp_all add: quotient_of_denom_pos quotient_of_div)
  with assms have a: "0 < a" by (simp add: zero_less_divide_iff)
  let ?d = "bitlen a - bitlen b"
  from b have b': "(0::rat) < of_int b" by simp
  have "x < 2 powi bitlen a / 2 powi (bitlen b - 1)"
  proof -
    have "x < 2 powi bitlen a / of_int b"
      unfolding x using bitlen_powi_bounds(2) [OF a] b' by (simp add: divide_strict_right_mono)
    also have "\<dots> \<le> 2 powi bitlen a / 2 powi (bitlen b - 1)"
      using bitlen_powi_bounds(1) [OF b] by (simp add: frac_le)
    finally show ?thesis .
  qed
  also have "\<dots> = 2 powi (bitlen a - (bitlen b - 1))"
    by (rule power_int_diff [symmetric]) simp
  also have "\<dots> = 2 powi (?d + 1)"
    by (rule arg_cong [where f = "\<lambda>n. 2 powi n"]) simp
  finally have up: "x < 2 powi (?d + 1)" .
  have "(2::rat) powi (?d - 1) = 2 powi ((bitlen a - 1) - bitlen b)"
    by (rule arg_cong [where f = "\<lambda>n. 2 powi n"]) simp
  also have "\<dots> = 2 powi (bitlen a - 1) / 2 powi bitlen b"
    by (rule power_int_diff) simp
  also have "\<dots> \<le> of_int a / 2 powi bitlen b"
    using bitlen_powi_bounds(1) [OF a] by (simp add: divide_right_mono)
  also have "\<dots> \<le> x"
    unfolding x using bitlen_powi_bounds(2) [OF b] a b' by (simp add: frac_le)
  finally have low: "2 powi (?d - 1) \<le> x" .
  have il: "ilog2 x = (if 2 powi ?d \<le> x then ?d else ?d - 1)"
    by (simp add: ilog2_def q Let_def)
  show "2 powi ilog2 x \<le> x"
    unfolding il using low by simp
  show "x < 2 powi (ilog2 x + 1)"
    unfolding il using up by simp
qed

lemma round_half_even_bounds:
  "of_int (round_half_even x) \<le> x + 1 / 2" "x - 1 / 2 \<le> of_int (round_half_even x)"
proof -
  define f where "f = \<lfloor>x\<rfloor>"
  define d where "d = x - of_int f"
  have f: "of_int f \<le> x" "x < of_int f + 1"
    unfolding f_def by linarith+
  have r: "round_half_even x = (if d < 1 / 2 then f else if 1 / 2 < d then f + 1
                                else if even f then f else f + 1)"
    by (simp add: round_half_even_def Let_def f_def d_def)
  consider "d < 1 / 2" | "1 / 2 < d" | "d = 1 / 2" by linarith
  then have "of_int (round_half_even x) \<le> x + 1 / 2 \<and> x - 1 / 2 \<le> of_int (round_half_even x)"
  proof cases
    case 1
    with r have "round_half_even x = f" by simp
    with f 1 show ?thesis unfolding d_def by simp
  next
    case 2
    with r have "round_half_even x = f + 1" by simp
    with f 2 show ?thesis unfolding d_def by simp
  next
    case 3
    with r have "round_half_even x = f \<or> round_half_even x = f + 1" by simp
    with f 3 show ?thesis unfolding d_def by auto
  qed
  then show "of_int (round_half_even x) \<le> x + 1 / 2" "x - 1 / 2 \<le> of_int (round_half_even x)"
    by simp_all
qed

lemma round_half_even_of_int: "round_half_even (of_int n) = n"
  by (simp add: round_half_even_def)

lemma round_half_even_le:
  assumes "x \<le> of_int n" shows "round_half_even x \<le> n"
proof (cases "x = of_int n")
  case True
  then show ?thesis by (simp add: round_half_even_of_int)
next
  case False
  with assms have lt: "x < of_int n" by simp
  then have "\<lfloor>x\<rfloor> < n" by (simp add: floor_less_iff)
  then have "\<lfloor>x\<rfloor> + 1 \<le> n" by simp
  moreover have "round_half_even x \<le> \<lfloor>x\<rfloor> + 1"
    unfolding round_half_even_def Let_def by simp
  ultimately show ?thesis by simp
qed

lemma powi2_neg_nat: "(2::rat) powi (- int t) = 1 / 2 ^ t"
  by (simp add: power_int_minus_divide)

lemma double_round_scaled:
  assumes x: "0 < x" and lo: "- 1022 \<le> ilog2 x" and hi: "ilog2 x \<le> 52"
  shows "double_round x
           = of_int (round_half_even (x * 2 ^ nat (52 - ilog2 x))) / 2 ^ nat (52 - ilog2 x)"
proof -
  let ?t = "nat (52 - ilog2 x)"
  from lo have s: "max (ilog2 x - 52) (- 1074) = ilog2 x - 52" by simp
  from hi have "ilog2 x - 52 = - int ?t" by simp
  then have "(2::rat) powi (ilog2 x - 52) = 2 powi (- int ?t)" by simp
  also have "\<dots> = 1 / 2 ^ ?t"
    by (rule powi2_neg_nat)
  finally have p: "(2::rat) powi (ilog2 x - 52) = 1 / 2 ^ ?t" .
  from x show ?thesis
    by (simp add: double_round_def double_round_pos_def s p Let_def)
qed

lemma double_round_of_int:
  assumes "0 < n" "n < 2 ^ 53"
  shows "double_round (of_int n) = of_int n"
proof -
  let ?x = "of_int n :: rat"
  from assms have x: "0 < ?x" by simp
  have "2 powi ilog2 ?x \<le> ?x" by (rule ilog2_bounds(1) [OF x])
  also from assms(2) have "?x < of_int (2 ^ 53)" by (simp only: of_int_less_iff)
  also have "(of_int (2 ^ 53) :: rat) = 2 powi 53" by simp
  finally have "ilog2 ?x < 53" by (rule powi2_less_imp_less)
  then have hi: "ilog2 ?x \<le> 52" by simp
  have "(2::rat) powi 0 \<le> ?x" using assms(1) by simp
  also have "?x < 2 powi (ilog2 ?x + 1)" by (rule ilog2_bounds(2) [OF x])
  finally have "0 < ilog2 ?x + 1" by (rule powi2_less_imp_less)
  then have lo: "- 1022 \<le> ilog2 ?x" by simp
  let ?t = "nat (52 - ilog2 ?x)"
  have "?x * 2 ^ ?t = of_int (n * 2 ^ ?t)" by simp
  then have "round_half_even (?x * 2 ^ ?t) = n * 2 ^ ?t"
    by (simp only: round_half_even_of_int)
  then show ?thesis
    unfolding double_round_scaled [OF x lo hi] by simp
qed

lemma py_float_exact:
  assumes "0 < n" "n < 2 ^ 53"
  shows "py_float n = Inr (of_int n)"
proof -
  from assms have "\<bar>n\<bar> < 2 ^ 1024"
    by (simp add: order_less_trans [where y = "2 ^ 53"])
  then have "\<not> 2 ^ 1024 \<le> \<lfloor>\<bar>of_int n :: rat\<bar>\<rfloor>" by simp
  then show ?thesis
    unfolding py_float_def Let_def double_round_of_int [OF assms] by simp
qed

lemma scaled_rounding_lower:
  fixes q :: rat
  assumes e: "e = 52 - int t" and le: "2 powi e \<le> q"
  shows "q - q / 2 ^ 53 \<le> of_int (round_half_even (q * 2 ^ t)) / 2 ^ t"
proof -
  have "(2::rat) powi e = 2 powi 52 / 2 powi int t"
    unfolding e by (rule power_int_diff) simp
  also have "\<dots> = 2 ^ 52 / 2 ^ t" by simp
  finally have "(2::rat) ^ 52 / 2 ^ t \<le> q" using le by simp
  then have "(2::rat) ^ 52 \<le> q * 2 ^ t" by (simp add: pos_divide_le_eq)
  then have half: "1 / 2 \<le> q * 2 ^ t / 2 ^ 53" by simp
  have "q * 2 ^ t - q * 2 ^ t / 2 ^ 53 \<le> q * 2 ^ t - 1 / 2"
    using half by simp
  also have "\<dots> \<le> of_int (round_half_even (q * 2 ^ t))"
    by (rule round_half_even_bounds(2))
  finally have "(q - q / 2 ^ 53) * 2 ^ t \<le> of_int (round_half_even (q * 2 ^ t))"
    by (simp add: algebra_simps)
  then show ?thesis by (simp add: pos_le_divide_eq)
qed

lemma quotient_margin:
  fixes x y :: rat
  assumes "x < 2 ^ 53" "0 < y"
  shows "(x - 1) / y < x / y - x / y / 2 ^ 53"
proof -
  from assms(1) have "x / 2 ^ 53 < 1" by simp
  then have "x / 2 ^ 53 / y < 1 / y"
    using assms(2) by (rule divide_strict_right_mono)
  moreover have "x / 2 ^ 53 / y = x / y / 2 ^ 53" by simp
  moreover have "(x - 1) / y = x / y - 1 / y" by (rule diff_divide_distrib)
  ultimately show ?thesis by linarith
qed

lemma ceiling_double_round_quotient:
  fixes a b :: int
  assumes a: "0 < a" "a < 2 ^ 53" and b: "0 < b" "b < 2 ^ 53"
  shows "\<lceil>double_round (of_int a / of_int b)\<rceil> = \<lceil>of_int a / of_int b :: rat\<rceil>"
proof -
  let ?q = "of_int a / of_int b :: rat"
  let ?n = "\<lceil>?q\<rceil>"
  from a b have q: "0 < ?q" by simp
  from b have b1: "(1::rat) \<le> of_int b" by simp
  from b have bpos: "(0::rat) < of_int b" by simp
  have qa: "?q \<le> of_int a"
    using a b1 by (simp add: pos_divide_le_eq mult_le_cancel_left1)
  have "2 powi ilog2 ?q \<le> ?q" by (rule ilog2_bounds(1) [OF q])
  also note qa
  also from a(2) have "(of_int a :: rat) < of_int (2 ^ 53)" by (simp only: of_int_less_iff)
  also have "(of_int (2 ^ 53) :: rat) = 2 powi 53" by simp
  finally have "ilog2 ?q < 53" by (rule powi2_less_imp_less)
  then have hi: "ilog2 ?q \<le> 52" by simp
  from b(2) have "(of_int b :: rat) < of_int (2 ^ 53)" by (simp only: of_int_less_iff)
  then have b53: "(of_int b :: rat) < 2 ^ 53" by simp
  have "(2::rat) powi (- 53) = 1 / 2 ^ 53"
    using powi2_neg_nat [of 53] by simp
  also have "\<dots> < 1 / of_int b"
    using b53 bpos by (simp add: frac_less2)
  also have "\<dots> \<le> ?q"
    using a(1) bpos by (simp add: divide_right_mono)
  also have "?q < 2 powi (ilog2 ?q + 1)" by (rule ilog2_bounds(2) [OF q])
  finally have "- 53 < ilog2 ?q + 1" by (rule powi2_less_imp_less)
  then have lo: "- 1022 \<le> ilog2 ?q" by simp
  let ?t = "nat (52 - ilog2 ?q)"
  let ?m = "round_half_even (?q * 2 ^ ?t)"
  let ?R = "of_int ?m / 2 ^ ?t :: rat"
  have R: "double_round ?q = ?R" by (rule double_round_scaled [OF q lo hi])
  have tpos: "(0::rat) < 2 ^ ?t" by simp
  have upper: "?R \<le> of_int ?n"
  proof -
    have "?q \<le> of_int ?n" by (rule le_of_int_ceiling)
    then have "?q * 2 ^ ?t \<le> of_int ?n * 2 ^ ?t"
      by (rule mult_right_mono) simp
    also have "\<dots> = of_int (?n * 2 ^ ?t)" by simp
    finally have "?m \<le> ?n * 2 ^ ?t" by (rule round_half_even_le)
    then have "(of_int ?m :: rat) \<le> of_int (?n * 2 ^ ?t)" by (simp only: of_int_le_iff)
    then have "(of_int ?m :: rat) \<le> of_int ?n * 2 ^ ?t" by simp
    then show ?thesis by (simp add: pos_divide_le_eq)
  qed
  have lower: "of_int ?n - 1 < ?R"
  proof -
    have e: "ilog2 ?q = 52 - int ?t" using hi by simp
    have R_ge: "?q - ?q / 2 ^ 53 \<le> ?R"
      by (rule scaled_rounding_lower [OF e ilog2_bounds(1) [OF q]])
    have "of_int ?n - 1 < ?q" by linarith
    then have "(of_int (?n - 1) :: rat) * of_int b < of_int a"
      using bpos by (simp add: pos_less_divide_eq)
    then have "(of_int ((?n - 1) * b) :: rat) < of_int a" by simp
    then have "(?n - 1) * b < a" by (simp only: of_int_less_iff)
    then have "(?n - 1) * b \<le> a - 1" by simp
    then have "(of_int ((?n - 1) * b) :: rat) \<le> of_int (a - 1)" by (simp only: of_int_le_iff)
    then have "(of_int ?n - 1) * of_int b \<le> (of_int a - 1 :: rat)" by simp
    then have n1: "of_int ?n - 1 \<le> (of_int a - 1) / (of_int b :: rat)"
      using bpos by (simp add: pos_le_divide_eq)
    from a(2) have "(of_int a :: rat) < of_int (2 ^ 53)" by (simp only: of_int_less_iff)
    then have "(of_int a :: rat) < 2 ^ 53" by simp
    then have "(of_int a - 1) / (of_int b :: rat) < ?q - ?q / 2 ^ 53"
      using bpos by (rule quotient_margin)
    with n1 R_ge show ?thesis by linarith
  qed
  from lower upper have "\<lceil>?R\<rceil> = ?n" by (rule ceiling_unique)
  with R show ?thesis by simp
qed

lemma count_batch_accum_exact:
  assumes "0 < target" "target < 2 ^ 53" "0 < bsz * num_replicas" "bsz * num_replicas < 2 ^ 53"
  shows "count_batch_accum bsz target num_replicas
           = Inr \<lceil>of_int target / of_int (bsz * num_replicas) :: rat\<rceil>"
proof -
  define d where "d = bsz * num_replicas"
  have dpos: "0 < d" "d < 2 ^ 53" using assms(3,4) by (simp_all only: d_def)
  have t: "py_float target = Inr (of_int target)"
    by (rule py_float_exact [OF assms(1,2)])
  have d: "py_float d = Inr (of_int d)"
    by (rule py_float_exact [OF dpos])
  from dpos(1) have nz: "(of_int d :: rat) \<noteq> 0" by simp
  have "count_batch_accum bsz target num_replicas
          = Inr \<lceil>double_round (of_int target / of_int d)\<rceil>"
    unfolding count_batch_accum_def float_truediv_def math_ceil_def d_def [symmetric] t d
    using nz by simp
  also have "\<lceil>double_round (of_int target / of_int d)\<rceil> = \<lceil>of_int target / of_int d :: rat\<rceil>"
    by (rule ceiling_double_round_quotient [OF assms(1,2) dpos])
  finally show ?thesis by (simp only: d_def)
qed

subsection \<open>The derived count\<close>

text \<open>
  Claim C5, as amended.  For positive \<open>batch_size\<close>, \<open>effective_batch_size\<close> and
  \<open>num_replicas\<close> such that the effective batch size and the product
  \<open>batch_size * num_replicas\<close> are both below \<open>2 ^ 53\<close> (the integers a double represents
  exactly), \<open>_count_batch_accum\<close> returns the ceiling of the exact quotient
  \<open>effective_batch_size / (batch_size * num_replicas)\<close>, and the count is at least 1.
  The function goes through \<open>float\<close>, so beyond \<open>2 ^ 53\<close> the result can differ from the
  exact ceiling.
\<close>

theorem accumulation_count:
  assumes "0 < bsz" and "0 < target" and "0 < num_replicas"
    and "target < 2 ^ 53" and "bsz * num_replicas < 2 ^ 53"
  shows "count_batch_accum bsz target num_replicas
           = Inr \<lceil>of_int target / of_int (bsz * num_replicas) :: rat\<rceil>
         \<and> 1 \<le> \<lceil>of_int target / of_int (bsz * num_replicas) :: rat\<rceil>"
proof
  from assms(1,3) have d: "0 < bsz * num_replicas" by (rule mult_pos_pos)
  show "count_batch_accum bsz target num_replicas
          = Inr \<lceil>of_int target / of_int (bsz * num_replicas) :: rat\<rceil>"
    by (rule count_batch_accum_exact [OF assms(2,4) d assms(5)])
  from d have "(0::rat) < of_int (bsz * num_replicas)" by (simp only: of_int_0_less_iff)
  moreover from assms(2) have "(0::rat) < of_int target" by (simp only: of_int_0_less_iff)
  ultimately have "(0::rat) < of_int target / of_int (bsz * num_replicas)"
    by (rule divide_pos_pos [rotated])
  then have "0 < \<lceil>of_int target / of_int (bsz * num_replicas) :: rat\<rceil>"
    by (simp only: zero_less_ceiling)
  then show "1 \<le> \<lceil>of_int target / of_int (bsz * num_replicas) :: rat\<rceil>" by simp
qed

theorem accumulation_count_witness:
  "count_batch_accum 512 4096 2 = Inr 4"
  using accumulation_count [of 512 4096 2] by simp

theorem accumulation_count_counterexample:
  "count_batch_accum 1 (2 ^ 53 + 1) 1 = Inr (2 ^ 53)
   \<and> \<lceil>of_int (2 ^ 53 + 1) / of_int (1 * 1) :: rat\<rceil> = 2 ^ 53 + 1"
  by code_simp

section \<open>Verification: the batch size search\<close>

lemma trial_config_InrD:
  assumes "trial_config num_devices s = Inr cfg'"
  shows "batch_size cfg' = Some ((max_batch_size s + min_batch_size s) div 2)
         \<and> effective_batch_size cfg' = effective_batch_size (tune_config s)
         \<and> model_dir cfg' = model_dir (tune_config s)"
proof (cases "effective_batch_size (tune_config s)")
  case None
  with assms have "cfg' = (tune_config s)\<lparr>batch_size := Some ((max_batch_size s + min_batch_size s) div 2)\<rparr>"
    by (simp add: trial_config_def Let_def)
  then show ?thesis by simp
next
  case (Some target)
  show ?thesis
  proof (cases "count_batch_accum ((max_batch_size s + min_batch_size s) div 2) target num_devices")
    case (Inl e)
    with assms Some show ?thesis by (simp add: trial_config_def Let_def)
  next
    case (Inr n)
    with assms Some have "cfg' = (tune_config s)\<lparr>batch_size := Some ((max_batch_size s + min_batch_size s) div 2), gradients_accum := Some n\<rparr>"
      by (simp add: trial_config_def Let_def)
    then show ?thesis by simp
  qed
qed

lemma write_file_InrD:
  assumes "write_file p w = Inr w'"
  shows "files w' = insert p (files w) \<and> spawned w' = spawned w \<and> mount w' = mount w"
  using assms by (cases "mount w p") (auto simp: write_file_def)

lemma write_file_InlD:
  assumes "write_file p w = Inl e"
  shows "mount w p = None \<and> e = NotFoundError"
  using assms by (cases "mount w p") (simp_all add: write_file_def)


lemma tune_iteration_InrD:
  assumes "tune_iteration run_trial args config_path num_devices s w = (Inr s', w')"
  shows "\<exists>code. run_trial args (tune_config s') = Inr code
           \<and> batch_size (tune_config s') = Some ((max_batch_size s + min_batch_size s) div 2)
           \<and> effective_batch_size (tune_config s') = effective_batch_size (tune_config s)
           \<and> min_batch_size s' =
               (if code = 0 then (max_batch_size s + min_batch_size s) div 2 else min_batch_size s)
           \<and> max_batch_size s' =
               (if code = 0 then max_batch_size s
                else (max_batch_size s + min_batch_size s) div 2 - 1)
           \<and> files w' = insert config_path (files w)
           \<and> spawned w' = spawned w @ [(args, tune_config s')]
           \<and> mount w' = mount w"
proof (cases "trial_config num_devices s")
  case (Inl e)
  with assms show ?thesis by (simp add: tune_iteration_def Let_def)
next
  case cfg: (Inr cfg')
  show ?thesis
  proof (cases "write_file config_path w")
    case (Inl e)
    with assms cfg show ?thesis by (simp add: tune_iteration_def Let_def)
  next
    case wr: (Inr w1)
    note w1 = write_file_InrD [OF wr]
    show ?thesis
    proof (cases "run_trial args cfg'")
      case (Inl e)
      with assms cfg wr show ?thesis by (simp add: tune_iteration_def Let_def)
    next
      case (Inr code)
      with assms cfg wr w1 trial_config_InrD [OF cfg] show ?thesis
        by (cases "code = 0") (simp_all add: tune_iteration_def Let_def, force+)
    qed
  qed
qed

lemma tune_iteration_InlD:
  assumes "tune_iteration run_trial args config_path num_devices s w = (Inl e, w')"
  shows "spawned w' = spawned w \<and> files w \<subseteq> files w'
           \<and> files w' \<subseteq> insert config_path (files w) \<and> mount w' = mount w"
proof (cases "trial_config num_devices s")
  case (Inl e')
  with assms show ?thesis by (auto simp: tune_iteration_def Let_def)
next
  case cfg: (Inr cfg')
  show ?thesis
  proof (cases "write_file config_path w")
    case (Inl e')
    with assms cfg show ?thesis by (auto simp: tune_iteration_def Let_def)
  next
    case wr: (Inr w1)
    note w1 = write_file_InrD [OF wr]
    show ?thesis
    proof (cases "run_trial args cfg'")
      case (Inl e')
      with assms cfg wr w1 show ?thesis by (auto simp: tune_iteration_def Let_def)
    next
      case (Inr code)
      with assms cfg wr show ?thesis by (simp add: tune_iteration_def Let_def)
    qed
  qed
qed

lemma tune_iteration_shrinks:
  assumes "1 \<le> min_range" and "min_range < max_batch_size s - min_batch_size s"
    and "tune_iteration run_trial args config_path num_devices s w = (Inr s', w')"
  shows "min_batch_size s \<le> min_batch_size s' \<and> min_batch_size s' \<le> max_batch_size s'
       \<and> max_batch_size s' \<le> max_batch_size s
       \<and> max_batch_size s' - min_batch_size s' < max_batch_size s - min_batch_size s"
proof -
  from tune_iteration_InrD [OF assms(3)] obtain code :: int where
    lo: "min_batch_size s' =
           (if code = 0 then (max_batch_size s + min_batch_size s) div 2 else min_batch_size s)"
    and hi: "max_batch_size s' =
           (if code = 0 then max_batch_size s
            else (max_batch_size s + min_batch_size s) div 2 - 1)"
    by blast
  from assms(1,2) have "2 \<le> max_batch_size s - min_batch_size s" by simp
  then show ?thesis unfolding lo hi by auto
qed

lemma tune_loop_rule:
  assumes prec: "1 \<le> min_range"
    and init: "I s w"
    and step: "\<And>s w s' w'. I s w \<Longrightarrow> min_range < max_batch_size s - min_batch_size s
                 \<Longrightarrow> tune_iteration run_trial args config_path num_devices s w = (Inr s', w')
                 \<Longrightarrow> I s' w'"
    and fail: "\<And>s w e w'. I s w \<Longrightarrow> min_range < max_batch_size s - min_batch_size s
                 \<Longrightarrow> tune_iteration run_trial args config_path num_devices s w = (Inl e, w')
                 \<Longrightarrow> Q e w'"
  shows "\<exists>r w'. tune_loop run_trial args config_path num_devices min_range s w = Some (r, w')
           \<and> (case r of
                 Inl e \<Rightarrow> Q e w'
               | Inr s' \<Rightarrow> I s' w' \<and> max_batch_size s' - min_batch_size s' \<le> min_range)"
  using init
proof (induction "nat (max_batch_size s - min_batch_size s)" arbitrary: s w rule: less_induct)
  case less
  show ?case
  proof (cases "min_range < max_batch_size s - min_batch_size s")
    case False
    then show ?thesis
      by (subst tune_loop.simps) (simp add: less.prems)
  next
    case True
    obtain r w1 where it: "tune_iteration run_trial args config_path num_devices s w = (r, w1)"
      by fastforce
    show ?thesis
    proof (cases r)
      case (Inl e)
      with fail [OF less.prems True] it have "Q e w1" by simp
      with True it Inl show ?thesis
        by (subst tune_loop.simps) simp
    next
      case (Inr s1)
      with it have it': "tune_iteration run_trial args config_path num_devices s w = (Inr s1, w1)"
        by simp
      from tune_iteration_shrinks [OF prec True it']
      have "nat (max_batch_size s1 - min_batch_size s1) < nat (max_batch_size s - min_batch_size s)"
        by linarith
      moreover have "I s1 w1"
        by (rule step [OF less.prems True it'])
      ultimately have "\<exists>r w'. tune_loop run_trial args config_path num_devices min_range s1 w1
             = Some (r, w')
           \<and> (case r of
                 Inl e \<Rightarrow> Q e w'
               | Inr s' \<Rightarrow> I s' w' \<and> max_batch_size s' - min_batch_size s' \<le> min_range)"
        by (rule less.hyps)
      with True it' show ?thesis
        by (subst tune_loop.simps) simp
    qed
  qed
qed




subsection \<open>The search as a whole\<close>

lemma os_remove_InrD:
  assumes "os_remove p w = (Inr u, w')"
  shows "p \<in> files w \<and> mount w p = Some LocalFS \<and> files w' = files w - {p}
         \<and> spawned w' = spawned w \<and> mount w' = mount w"
  using assms by (cases "p \<in> files w \<and> mount w p = Some LocalFS") (auto simp: os_remove_def)

lemma os_remove_InlD:
  assumes "os_remove p w = (Inl e, w')"
  shows "(p \<notin> files w \<or> mount w p \<noteq> Some LocalFS) \<and> w' = w \<and> e = FileNotFoundError"
  using assms by (cases "p \<in> files w \<and> mount w p = Some LocalFS") (auto simp: os_remove_def)

lemma cleanup_temporary_files_InrD:
  assumes "cleanup_temporary_files config_path session_config_path w = (Inr u, w')"
  shows "config_path \<notin> files w' \<and> (\<forall>p. session_config_path = Some p \<longrightarrow> p \<notin> files w')
         \<and> files w' \<subseteq> files w \<and> spawned w' = spawned w"
proof -
  obtain r1 w1 where r1: "os_remove config_path w = (r1, w1)" by fastforce
  show ?thesis
  proof (cases r1)
    case (Inl e)
    with assms r1 show ?thesis by (simp add: cleanup_temporary_files_def)
  next
    case (Inr u1)
    with r1 have f1: "files w1 = files w - {config_path}" "spawned w1 = spawned w"
      using os_remove_InrD by blast+
    show ?thesis
    proof (cases session_config_path)
      case None
      with assms r1 Inr f1 show ?thesis by (auto simp: cleanup_temporary_files_def)
    next
      case (Some p)
      with assms r1 Inr have "os_remove p w1 = (Inr u, w')"
        by (simp add: cleanup_temporary_files_def)
      from os_remove_InrD [OF this] f1 Some show ?thesis by auto
    qed
  qed
qed

lemma cleanup_temporary_files_InlD:
  assumes "cleanup_temporary_files config_path session_config_path w = (Inl e, w')"
  shows "e = FileNotFoundError \<and> spawned w' = spawned w
         \<and> (config_path \<notin> files w \<or> mount w config_path \<noteq> Some LocalFS
              \<or> (\<exists>p. session_config_path = Some p
                     \<and> (p \<notin> files w - {config_path} \<or> mount w p \<noteq> Some LocalFS)))"
proof -
  obtain r1 w1 where r1: "os_remove config_path w = (r1, w1)" by fastforce
  show ?thesis
  proof (cases r1)
    case (Inl e1)
    with assms r1 have "os_remove config_path w = (Inl e, w')"
      by (simp add: cleanup_temporary_files_def)
    from os_remove_InlD [OF this] show ?thesis by auto
  next
    case (Inr u1)
    with r1 have f1: "files w1 = files w - {config_path}" "spawned w1 = spawned w"
        "mount w1 = mount w"
      using os_remove_InrD by blast+
    show ?thesis
    proof (cases session_config_path)
      case None
      with assms r1 Inr show ?thesis by (simp add: cleanup_temporary_files_def)
    next
      case (Some p)
      with assms r1 Inr have "os_remove p w1 = (Inl e, w')"
        by (simp add: cleanup_temporary_files_def)
      from os_remove_InlD [OF this] f1 Some show ?thesis by auto
    qed
  qed
qed

lemma auto_tune_batch_size_unfold:
  "auto_tune_batch_size run_trial cfg lo hi min_range iters num_devices gmf w =
     (case (if gmf < 1 then write_file (autotuner_session_config_path cfg) w else Inr w) of
        Inl e \<Rightarrow> Some (Inl e, w)
      | Inr w1 \<Rightarrow>
          (case tune_loop run_trial
                  \<lparr>config_arg = autotuner_config_path cfg, num_gpus_arg = num_devices,
                   session_config_arg =
                     (if gmf < 1 then Some (autotuner_session_config_path cfg) else None)\<rparr>
                  (autotuner_config_path cfg) num_devices min_range
                  \<lparr>tune_config = cfg\<lparr>save_checkpoints_steps := Some None,
                                      average_last_checkpoints := Some 0,
                                      train_steps := Some iters\<rparr>,
                   min_batch_size = lo, max_batch_size = hi\<rparr> w1 of
             None \<Rightarrow> None
           | Some (Inl e, w2) \<Rightarrow> Some (Inl e, w2)
           | Some (Inr s, w2) \<Rightarrow>
               Some (case cleanup_temporary_files (autotuner_config_path cfg)
                            (if gmf < 1 then Some (autotuner_session_config_path cfg) else None)
                            w2 of
                       (Inl e, w3) \<Rightarrow> (Inl e, w3)
                     | (Inr u, w3) \<Rightarrow> (Inr (min_batch_size s), w3))))"
proof -
  let ?cfg = "cfg\<lparr>save_checkpoints_steps := Some None, average_last_checkpoints := Some 0,
                  train_steps := Some iters\<rparr>"
  have paths: "autotuner_config_path ?cfg = autotuner_config_path cfg"
    "autotuner_session_config_path ?cfg = autotuner_session_config_path cfg"
    by (simp_all add: autotuner_config_path_def autotuner_session_config_path_def)
  show ?thesis
    unfolding auto_tune_batch_size_def Let_def paths by (cases "gmf < 1") simp_all
qed

lemma auto_tune_batch_size_InrD:
  assumes "auto_tune_batch_size run_trial cfg lo hi min_range iters num_devices gmf w
             = Some (Inr v, w')"
  shows "\<exists>w1 s w2 u.
           tune_loop run_trial
              \<lparr>config_arg = autotuner_config_path cfg, num_gpus_arg = num_devices,
               session_config_arg =
                 (if gmf < 1 then Some (autotuner_session_config_path cfg) else None)\<rparr>
              (autotuner_config_path cfg) num_devices min_range
              \<lparr>tune_config = cfg\<lparr>save_checkpoints_steps := Some None,
                                  average_last_checkpoints := Some 0,
                                  train_steps := Some iters\<rparr>,
               min_batch_size = lo, max_batch_size = hi\<rparr> w1
             = Some (Inr s, w2)
         \<and> cleanup_temporary_files (autotuner_config_path cfg)
              (if gmf < 1 then Some (autotuner_session_config_path cfg) else None) w2
             = (Inr u, w')
         \<and> v = min_batch_size s"
proof -
  let ?sp = "if gmf < 1 then Some (autotuner_session_config_path cfg) else None"
  let ?args = "\<lparr>config_arg = autotuner_config_path cfg, num_gpus_arg = num_devices,
               session_config_arg = ?sp\<rparr>"
  let ?s0 = "\<lparr>tune_config = cfg\<lparr>save_checkpoints_steps := Some None,
                                  average_last_checkpoints := Some 0,
                                  train_steps := Some iters\<rparr>,
               min_batch_size = lo, max_batch_size = hi\<rparr>"
  let ?wr = "if gmf < 1 then write_file (autotuner_session_config_path cfg) w else Inr w"
  note unfold = auto_tune_batch_size_unfold
  obtain w1 where w1: "?wr = Inr w1"
    using assms unfolding unfold by (cases ?wr) auto
  let ?loop = "tune_loop run_trial ?args (autotuner_config_path cfg) num_devices min_range ?s0 w1"
  have run: "(case ?loop of
             None \<Rightarrow> None
           | Some (Inl e, w2) \<Rightarrow> Some (Inl e, w2)
           | Some (Inr s, w2) \<Rightarrow>
               Some (case cleanup_temporary_files (autotuner_config_path cfg) ?sp w2 of
                       (Inl e, w3) \<Rightarrow> (Inl e, w3)
                     | (Inr u, w3) \<Rightarrow> (Inr (min_batch_size s), w3))) = Some (Inr v, w')"
    using assms unfolding unfold w1 by simp
  obtain r w2 where loop: "?loop = Some (r, w2)"
    using run by (cases ?loop) auto
  obtain s where r: "r = Inr s"
    using run loop by (cases r) auto
  obtain c w3 where c: "cleanup_temporary_files (autotuner_config_path cfg) ?sp w2 = (c, w3)"
    by fastforce
  obtain u where u: "c = Inr u"
    using run loop r c by (cases c) auto
  from run loop r c u have "v = min_batch_size s" "w' = w3"
    by auto
  with loop r c u show ?thesis
    by (intro exI [of _ w1] exI [of _ s] exI [of _ w2] exI [of _ u]) simp
qed

lemma auto_tune_batch_size_rule:
  assumes prec: "1 \<le> min_range"
    and init: "\<And>c w1. effective_batch_size c = effective_batch_size cfg
                 \<Longrightarrow> spawned w1 = spawned w
                 \<Longrightarrow> mount w1 = mount w
                 \<Longrightarrow> files w1 = (if gmf < 1 then insert (autotuner_session_config_path cfg) (files w)
                                  else files w)
                 \<Longrightarrow> I \<lparr>tune_config = c, min_batch_size = lo, max_batch_size = hi\<rparr> w1"
    and step: "\<And>args s w1 s' w2. I s w1 \<Longrightarrow> min_range < max_batch_size s - min_batch_size s
                 \<Longrightarrow> tune_iteration run_trial args (autotuner_config_path cfg) num_devices s w1
                       = (Inr s', w2)
                 \<Longrightarrow> I s' w2"
    and fail: "\<And>args s w1 e w2. I s w1 \<Longrightarrow> min_range < max_batch_size s - min_batch_size s
                 \<Longrightarrow> tune_iteration run_trial args (autotuner_config_path cfg) num_devices s w1
                       = (Inl e, w2)
                 \<Longrightarrow> Q e"
  shows "\<exists>r w'. auto_tune_batch_size run_trial cfg lo hi min_range iters num_devices gmf w
                  = Some (r, w')
           \<and> (case r of
                 Inl e \<Rightarrow>
                   Q e
                   \<or> (gmf < 1 \<and> mount w (autotuner_session_config_path cfg) = None)
                   \<or> (\<exists>s w2. I s w2 \<and> max_batch_size s - min_batch_size s \<le> min_range
                         \<and> e = FileNotFoundError \<and> spawned w' = spawned w2
                         \<and> (autotuner_config_path cfg \<notin> files w2
                              \<or> mount w2 (autotuner_config_path cfg) \<noteq> Some LocalFS
                              \<or> (gmf < 1
                                   \<and> (autotuner_session_config_path cfg
                                          \<notin> files w2 - {autotuner_config_path cfg}
                                        \<or> mount w2 (autotuner_session_config_path cfg)
                                            \<noteq> Some LocalFS))))
               | Inr v \<Rightarrow>
                   (\<exists>s w2. I s w2 \<and> max_batch_size s - min_batch_size s \<le> min_range
                      \<and> v = min_batch_size s \<and> spawned w' = spawned w2
                      \<and> files w' \<subseteq> files w2
                      \<and> autotuner_config_path cfg \<notin> files w'
                      \<and> (gmf < 1 \<longrightarrow> autotuner_session_config_path cfg \<notin> files w')))"
proof -
  let ?cp = "autotuner_config_path cfg"
  let ?sp = "if gmf < 1 then Some (autotuner_session_config_path cfg) else None"
  let ?args = "\<lparr>config_arg = ?cp, num_gpus_arg = num_devices, session_config_arg = ?sp\<rparr>"
  let ?s0 = "\<lparr>tune_config = cfg\<lparr>save_checkpoints_steps := Some None,
                                 average_last_checkpoints := Some 0,
                                 train_steps := Some iters\<rparr>,
              min_batch_size = lo, max_batch_size = hi\<rparr>"
  let ?wr = "if gmf < 1 then write_file (autotuner_session_config_path cfg) w else Inr w"
  show ?thesis
  proof (cases ?wr)
    case (Inl e)
    then have "gmf < 1 \<and> mount w (autotuner_session_config_path cfg) = None"
      using write_file_InlD [of "autotuner_session_config_path cfg" w e]
      by (cases "gmf < 1") simp_all
    with Inl show ?thesis
      by (simp add: auto_tune_batch_size_unfold)
  next
    case wr: (Inr w1)
    have w1: "spawned w1 = spawned w \<and> mount w1 = mount w
      \<and> files w1 = (if gmf < 1 then insert (autotuner_session_config_path cfg) (files w)
                   else files w)"
    proof (cases "gmf < 1")
      case True
      with wr have "write_file (autotuner_session_config_path cfg) w = Inr w1" by simp
      from write_file_InrD [OF this] True show ?thesis by simp
    next
      case False
      with wr have "w1 = w" by simp
      with False show ?thesis by simp
    qed
    have i0: "I ?s0 w1"
      by (rule init) (simp_all add: w1)
    have "\<exists>r w'. tune_loop run_trial ?args ?cp num_devices min_range ?s0 w1 = Some (r, w')
             \<and> (case r of
                   Inl e \<Rightarrow> Q e
                 | Inr s' \<Rightarrow> I s' w' \<and> max_batch_size s' - min_batch_size s' \<le> min_range)"
    proof (rule tune_loop_rule [where I = I and Q = "\<lambda>e w. Q e", OF prec i0])
      fix s w1 s' w2
      assume "I s w1" "min_range < max_batch_size s - min_batch_size s"
        "tune_iteration run_trial ?args ?cp num_devices s w1 = (Inr s', w2)"
      then show "I s' w2" by (rule step)
    next
      fix s w1 e w2
      assume "I s w1" "min_range < max_batch_size s - min_batch_size s"
        "tune_iteration run_trial ?args ?cp num_devices s w1 = (Inl e, w2)"
      then show "Q e" by (rule fail)
    qed
    then obtain r w2 where loop: "tune_loop run_trial ?args ?cp num_devices min_range ?s0 w1 = Some (r, w2)"
      and post: "case r of Inl e \<Rightarrow> Q e
                 | Inr s' \<Rightarrow> I s' w2 \<and> max_batch_size s' - min_batch_size s' \<le> min_range"
      by blast
    show ?thesis
    proof (cases r)
      case (Inl e)
      with loop post wr show ?thesis
        by (simp add: auto_tune_batch_size_unfold)
    next
      case (Inr s')
      with post have I: "I s' w2" and fin: "max_batch_size s' - min_batch_size s' \<le> min_range"
        by simp_all
      obtain c w3 where c: "cleanup_temporary_files ?cp ?sp w2 = (c, w3)" by fastforce
      show ?thesis
      proof (cases c)
        case (Inl e)
        from cleanup_temporary_files_InlD [OF c [unfolded Inl]]
        have "e = FileNotFoundError" "spawned w3 = spawned w2"
          "?cp \<notin> files w2 \<or> mount w2 ?cp \<noteq> Some LocalFS
             \<or> (gmf < 1 \<and> (autotuner_session_config_path cfg \<notin> files w2 - {?cp}
                            \<or> mount w2 (autotuner_session_config_path cfg) \<noteq> Some LocalFS))"
          by (auto split: if_splits)
        with I fin have "\<exists>s w2. I s w2 \<and> max_batch_size s - min_batch_size s \<le> min_range
                           \<and> e = FileNotFoundError \<and> spawned w3 = spawned w2
                           \<and> (?cp \<notin> files w2 \<or> mount w2 ?cp \<noteq> Some LocalFS
                                \<or> (gmf < 1
                                     \<and> (autotuner_session_config_path cfg \<notin> files w2 - {?cp}
                                          \<or> mount w2 (autotuner_session_config_path cfg)
                                              \<noteq> Some LocalFS)))"
          by blast
        with loop Inr c Inl wr show ?thesis
          by (simp add: auto_tune_batch_size_unfold)
      next
        case u: (Inr u)
        from cleanup_temporary_files_InrD [OF c [unfolded u]]
        have "?cp \<notin> files w3" "gmf < 1 \<longrightarrow> autotuner_session_config_path cfg \<notin> files w3"
          "files w3 \<subseteq> files w2" "spawned w3 = spawned w2"
          by simp_all
        with I fin have "\<exists>s w2. I s w2 \<and> max_batch_size s - min_batch_size s \<le> min_range
                        \<and> min_batch_size s' = min_batch_size s \<and> spawned w3 = spawned w2
                        \<and> files w3 \<subseteq> files w2
                        \<and> ?cp \<notin> files w3
                        \<and> (gmf < 1 \<longrightarrow> autotuner_session_config_path cfg \<notin> files w3)"
          by blast
        with loop Inr c u wr show ?thesis
          by (simp add: auto_tune_batch_size_unfold)
      qed
    qed
  qed
qed









subsection \<open>The search interval\<close>

text \<open>
  Claim C4, as amended. For every precision \<open>min_range \<ge> 1\<close> and every iteration that
  the loop runs (its guard \<open>max_batch_size - min_batch_size > min_range\<close> holds) and that
  ends without an exception: \<open>min_batch_size \<le> max_batch_size\<close> holds before and after
  the iteration, the new interval lies inside the old one, and it is strictly narrower.
\<close>

theorem search_interval_shrinks:
  assumes "1 \<le> min_range"
    and "min_range < max_batch_size s - min_batch_size s"
    and "tune_iteration run_trial args config_path num_devices s w = (Inr s', w')"
  shows "min_batch_size s \<le> max_batch_size s
       \<and> min_batch_size s' \<le> max_batch_size s'
       \<and> min_batch_size s \<le> min_batch_size s'
       \<and> max_batch_size s' \<le> max_batch_size s
       \<and> max_batch_size s' - min_batch_size s' < max_batch_size s - min_batch_size s"
  using tune_iteration_shrinks [OF assms] assms(1,2) by linarith

text \<open>The first iteration of the search between 1024 and 16384 with precision 256.\<close>

theorem search_interval_shrinks_witness:
  "(1::int) \<le> 256
   \<and> (256::int) < 16384 - 1024
   \<and> tune_iteration (threshold_runner 9000) example_args ''run/batch_size_autotuner.yml'' 1
        \<lparr>tune_config = example_config, min_batch_size = 1024, max_batch_size = 16384\<rparr>
        empty_world
      = (Inr \<lparr>tune_config = example_config\<lparr>batch_size := Some 8704\<rparr>,
               min_batch_size = 8704, max_batch_size = 16384\<rparr>,
         empty_world\<lparr>files := {''run/batch_size_autotuner.yml''},
          spawned := [(example_args, example_config\<lparr>batch_size := Some 8704\<rparr>)]\<rparr>)
   \<and> (1024::int) \<le> 16384 \<and> (8704::int) \<le> 16384 \<and> (1024::int) \<le> 8704
   \<and> (16384::int) - 8704 < 16384 - 1024"
proof -
  have it: "tune_iteration (threshold_runner 9000) example_args ''run/batch_size_autotuner.yml'' 1
        \<lparr>tune_config = example_config, min_batch_size = 1024, max_batch_size = 16384\<rparr>
        empty_world
      = (Inr \<lparr>tune_config = example_config\<lparr>batch_size := Some 8704\<rparr>,
               min_batch_size = 8704, max_batch_size = 16384\<rparr>,
         empty_world\<lparr>files := {''run/batch_size_autotuner.yml''},
          spawned := [(example_args, example_config\<lparr>batch_size := Some 8704\<rparr>)]\<rparr>)"
    by (simp add: tune_iteration_def trial_config_def threshold_runner_def example_config_def
        empty_world_def write_file_def Let_def)
  have p: "(1::int) \<le> 256" by simp
  have g: "256 < max_batch_size \<lparr>tune_config = example_config, min_batch_size = 1024, max_batch_size = 16384\<rparr>
             - min_batch_size \<lparr>tune_config = example_config, min_batch_size = 1024, max_batch_size = 16384\<rparr>"
    by simp
  from search_interval_shrinks [OF p g it] it show ?thesis by simp
qed

text \<open>
  Claim C4 as stated includes the precision 0, and fails there. On the interval
  \<open>[1, 2]\<close> the guard \<open>2 - 1 > 0\<close> holds and the candidate is 1: a failed trial leaves
  \<open>min_batch_size = 1 > max_batch_size = 0\<close>, and a successful trial leaves the interval
  \<open>[1, 2]\<close> as it was.
\<close>

theorem search_interval_counterexample:
  "(0::int) < 2 - 1
   \<and> tune_iteration (constant_runner 1) example_args ''run/batch_size_autotuner.yml'' 1
        \<lparr>tune_config = example_config, min_batch_size = 1, max_batch_size = 2\<rparr> empty_world
      = (Inr \<lparr>tune_config = example_config\<lparr>batch_size := Some 1\<rparr>,
               min_batch_size = 1, max_batch_size = 0\<rparr>,
         empty_world\<lparr>files := {''run/batch_size_autotuner.yml''},
          spawned := [(example_args, example_config\<lparr>batch_size := Some 1\<rparr>)]\<rparr>)
   \<and> \<not> (1::int) \<le> 0
   \<and> tune_iteration (constant_runner 0) example_args ''run/batch_size_autotuner.yml'' 1
        \<lparr>tune_config = example_config, min_batch_size = 1, max_batch_size = 2\<rparr> empty_world
      = (Inr \<lparr>tune_config = example_config\<lparr>batch_size := Some 1\<rparr>,
               min_batch_size = 1, max_batch_size = 2\<rparr>,
         empty_world\<lparr>files := {''run/batch_size_autotuner.yml''},
          spawned := [(example_args, example_config\<lparr>batch_size := Some 1\<rparr>)]\<rparr>)
   \<and> \<not> (2::int) - 1 < 2 - 1"
  by (simp add: tune_iteration_def trial_config_def constant_runner_def example_config_def
        empty_world_def write_file_def Let_def)

subsection \<open>The result of the search\<close>




text \<open>
  The other conditions are needed as well, for a search with the precision 256 and sizes
  up to 9000 feasible. On a range no wider than the precision no trial configuration is
  written, and its removal raises. In a model directory that does not exist the first
  write raises. On another file system \<^verbatim>\<open>os.remove\<close> does not find the files. And with
  an effective batch size but no device the accumulation count divides by zero.
\<close>

lemma search_without_value:
  "auto_tune_batch_size (threshold_runner 9000) example_config 1024 1280 256 5 1 (4 / 5)
       empty_world
     = Some (Inl FileNotFoundError, empty_world\<lparr>files := {''run/batch_size_autotuner.proto''}\<rparr>)"
  "auto_tune_batch_size (threshold_runner 9000) example_config 1024 16384 256 5 1 (4 / 5)
       (empty_world\<lparr>mount := (\<lambda>p. None)\<rparr>)
     = Some (Inl NotFoundError, empty_world\<lparr>mount := (\<lambda>p. None)\<rparr>)"
  "map_option fst
     (auto_tune_batch_size (threshold_runner 9000) example_config 1024 1536 256 5 1 (4 / 5)
        (empty_world\<lparr>mount := (\<lambda>p. Some OtherFS)\<rparr>))
     = Some (Inl FileNotFoundError)"
  "map_option fst
     (auto_tune_batch_size (threshold_runner 9000)
        (example_config\<lparr>effective_batch_size := Some 4096\<rparr>) 1024 16384 256 5 0 (4 / 5)
        empty_world)
     = Some (Inl ZeroDivisionError)"
proof -
  have z: "count_batch_accum 8704 4096 0 = Inl ZeroDivisionError"
    by code_simp
  note defs = auto_tune_batch_size_def tune_loop.simps tune_iteration_def trial_config_def
    threshold_runner_def example_config_def empty_world_def path_join_def write_file_def
    os_remove_def cleanup_temporary_files_def autotuner_config_path_def
    autotuner_session_config_path_def Let_def insert_Diff_if
  show "auto_tune_batch_size (threshold_runner 9000) example_config 1024 1280 256 5 1 (4 / 5)
       empty_world
     = Some (Inl FileNotFoundError, empty_world\<lparr>files := {''run/batch_size_autotuner.proto''}\<rparr>)"
    by (simp add: defs)
  show "auto_tune_batch_size (threshold_runner 9000) example_config 1024 16384 256 5 1 (4 / 5)
       (empty_world\<lparr>mount := (\<lambda>p. None)\<rparr>)
     = Some (Inl NotFoundError, empty_world\<lparr>mount := (\<lambda>p. None)\<rparr>)"
    by (simp add: defs)
  show "map_option fst
     (auto_tune_batch_size (threshold_runner 9000) example_config 1024 1536 256 5 1 (4 / 5)
        (empty_world\<lparr>mount := (\<lambda>p. Some OtherFS)\<rparr>))
     = Some (Inl FileNotFoundError)"
    by (simp add: defs)
  show "map_option fst
     (auto_tune_batch_size (threshold_runner 9000)
        (example_config\<lparr>effective_batch_size := Some 4096\<rparr>) 1024 16384 256 5 0 (4 / 5)
        empty_world)
     = Some (Inl ZeroDivisionError)"
    by (simp add: defs z)
qed

subsection \<open>The scratch files\<close>

text \<open>
  Claim C7, as amended. Whenever the batch size search returns a batch size, the trial
  configuration file is gone when it returns, and so is the session configuration file
  if the search wrote one (\<open>gmf < 1\<close>).
\<close>

theorem scratch_files_removed:
  assumes "auto_tune_batch_size run_trial cfg lo hi min_range iters num_devices gmf w
             = Some (Inr v, w')"
  shows "autotuner_config_path cfg \<notin> files w'
       \<and> (gmf < 1 \<longrightarrow> autotuner_session_config_path cfg \<notin> files w')"
proof -
  from auto_tune_batch_size_InrD [OF assms] obtain w2 u where
    "cleanup_temporary_files (autotuner_config_path cfg)
       (if gmf < 1 then Some (autotuner_session_config_path cfg) else None) w2 = (Inr u, w')"
    by blast
  from cleanup_temporary_files_InrD [OF this] show ?thesis by simp
qed

text \<open>A search between 1024 and 1536: one trial, at 1280, and both files removed.\<close>

theorem scratch_files_removed_witness:
  "\<exists>w'. auto_tune_batch_size (threshold_runner 9000) example_config 1024 1536 256 5 1 (4 / 5)
           empty_world = Some (Inr 1280, w')
        \<and> autotuner_config_path example_config \<notin> files w'
        \<and> ((4 / 5 :: rat) < 1)
        \<and> autotuner_session_config_path example_config \<notin> files w'"
proof -
  have "map_option fst (auto_tune_batch_size (threshold_runner 9000) example_config 1024 1536 256 5 1
           (4 / 5) empty_world) = Some (Inr 1280)"
    by (simp add: auto_tune_batch_size_def tune_loop.simps tune_iteration_def trial_config_def
        threshold_runner_def example_config_def empty_world_def path_join_def write_file_def
        os_remove_def cleanup_temporary_files_def autotuner_config_path_def
        autotuner_session_config_path_def Let_def)
  then obtain w' where r: "auto_tune_batch_size (threshold_runner 9000) example_config 1024 1536 256 5 1
           (4 / 5) empty_world = Some (Inr 1280, w')"
    by auto
  from scratch_files_removed [OF r] r show ?thesis by auto
qed

text \<open>
  Claim C7 as stated also covers the searches that fail. It does not hold for them: the
  removal is the last step of the search and there is no \<^verbatim>\<open>try\<close> around the loop, so
  an exception leaves the function where it is raised. When the trial process cannot be
  started, the search ends with that exception and both scratch files in place.
\<close>

theorem scratch_files_counterexample:
  "auto_tune_batch_size broken_runner example_config 1024 16384 256 5 1 (4 / 5) empty_world
     = Some (Inl OSError,
             empty_world\<lparr>files := {''run/batch_size_autotuner.yml'',
                                   ''run/batch_size_autotuner.proto''}\<rparr>)"
  by (simp add: auto_tune_batch_size_def tune_loop.simps tune_iteration_def trial_config_def
        broken_runner_def example_config_def empty_world_def path_join_def
        write_file_def os_remove_def cleanup_temporary_files_def autotuner_config_path_def
        autotuner_session_config_path_def Let_def)

section \<open>Verification: finalizing the training parameters\<close>

text \<open>
  Claim C6. With no batch size (or the batch size 0) and the batch type
  \<^verbatim>\<open>"examples"\<close>, finalizing the training parameters raises \<^verbatim>\<open>ValueError\<close> and leaves the
  world as it was: no trial was started and no scratch file written. With a positive
  batch size there is no search: the world is again unchanged, and the result is the
  configuration with its accumulation count derived (or the error of that derivation).
\<close>

theorem autotune_precondition:
  "((batch_size cfg = None \<or> batch_size cfg = Some 0) \<and> batch_type cfg = ''examples''
      \<longrightarrow> finalize_training_parameters run_trial num_devices cfg w = Some (Inl ValueError, w))
   \<and> (\<forall>b. batch_size cfg = Some b \<and> 0 < b
      \<longrightarrow> finalize_training_parameters run_trial num_devices cfg w
            = Some (set_gradients_accum num_devices cfg, w))"
  by (auto simp: finalize_training_parameters_def)

theorem autotune_precondition_witness:
  "batch_size (example_config\<lparr>batch_type := ''examples''\<rparr>) = None
   \<and> batch_type (example_config\<lparr>batch_type := ''examples''\<rparr>) = ''examples''
   \<and> finalize_training_parameters (threshold_runner 9000) 1
        (example_config\<lparr>batch_type := ''examples''\<rparr>) empty_world
      = Some (Inl ValueError, empty_world)
   \<and> batch_size (example_config\<lparr>batch_size := Some 4096\<rparr>) = Some 4096
   \<and> (0::int) < 4096
   \<and> finalize_training_parameters (threshold_runner 9000) 1
        (example_config\<lparr>batch_size := Some 4096\<rparr>) empty_world
      = Some (Inr (example_config\<lparr>batch_size := Some 4096\<rparr>), empty_world)"
  using autotune_precondition
    [of "example_config\<lparr>batch_type := ''examples''\<rparr>" "threshold_runner 9000" 1 empty_world]
    autotune_precondition
    [of "example_config\<lparr>batch_size := Some 4096\<rparr>" "threshold_runner 9000" 1 empty_world]
  by (simp add: example_config_def set_gradients_accum_def)

subsection \<open>The autotuned batch size and the effective batch size\<close>

lemma set_gradients_accum_batch_size:
  assumes "set_gradients_accum num_replicas cfg = Inr cfg'"
  shows "batch_size cfg' = batch_size cfg"
proof (cases "effective_batch_size cfg")
  case None
  with assms show ?thesis by (simp add: set_gradients_accum_def)
next
  case (Some target)
  show ?thesis
  proof (cases "batch_size cfg")
    case None
    with assms Some show ?thesis by (simp add: set_gradients_accum_def)
  next
    case bs: (Some bsz)
    show ?thesis
    proof (cases "count_batch_accum bsz target num_replicas")
      case (Inl e)
      with assms Some bs show ?thesis by (simp add: set_gradients_accum_def)
    next
      case (Inr n)
      with assms Some bs have "cfg' = cfg\<lparr>gradients_accum := Some n\<rparr>"
        by (simp add: set_gradients_accum_def)
      then show ?thesis by simp
    qed
  qed
qed

lemma auto_tune_batch_size_returns:
  assumes prec: "1 \<le> min_range"
    and init: "\<And>c w1. I \<lparr>tune_config = c, min_batch_size = lo, max_batch_size = hi\<rparr> w1"
    and step: "\<And>args s w1 s' w2. I s w1 \<Longrightarrow> min_range < max_batch_size s - min_batch_size s
                 \<Longrightarrow> tune_iteration run_trial args (autotuner_config_path cfg) num_devices s w1
                       = (Inr s', w2)
                 \<Longrightarrow> I s' w2"
  shows "\<exists>r w'. auto_tune_batch_size run_trial cfg lo hi min_range iters num_devices gmf w
                  = Some (r, w')
           \<and> (\<forall>v. r = Inr v \<longrightarrow> (\<exists>s w2. I s w2 \<and> v = min_batch_size s))"
proof -
  have "\<exists>r w'. auto_tune_batch_size run_trial cfg lo hi min_range iters num_devices gmf w
                  = Some (r, w')
           \<and> (case r of
                 Inl e \<Rightarrow>
                   True
                   \<or> (gmf < 1 \<and> mount w (autotuner_session_config_path cfg) = None)
                   \<or> (\<exists>s w2. I s w2 \<and> max_batch_size s - min_batch_size s \<le> min_range
                         \<and> e = FileNotFoundError \<and> spawned w' = spawned w2
                         \<and> (autotuner_config_path cfg \<notin> files w2
                              \<or> mount w2 (autotuner_config_path cfg) \<noteq> Some LocalFS
                              \<or> (gmf < 1
                                   \<and> (autotuner_session_config_path cfg
                                          \<notin> files w2 - {autotuner_config_path cfg}
                                        \<or> mount w2 (autotuner_session_config_path cfg)
                                            \<noteq> Some LocalFS))))
               | Inr v \<Rightarrow>
                   (\<exists>s w2. I s w2 \<and> max_batch_size s - min_batch_size s \<le> min_range
                      \<and> v = min_batch_size s \<and> spawned w' = spawned w2
                      \<and> files w' \<subseteq> files w2
                      \<and> autotuner_config_path cfg \<notin> files w'
                      \<and> (gmf < 1 \<longrightarrow> autotuner_session_config_path cfg \<notin> files w')))"
  proof (rule auto_tune_batch_size_rule [where I = I and Q = "\<lambda>e. True", OF prec])
    fix c :: config and w1 :: world
    show "I \<lparr>tune_config = c, min_batch_size = lo, max_batch_size = hi\<rparr> w1"
      by (rule init)
  next
    fix args :: trial_args and s s' :: tune_state and w1 w2 :: world
    assume "I s w1" "min_range < max_batch_size s - min_batch_size s"
      "tune_iteration run_trial args (autotuner_config_path cfg) num_devices s w1 = (Inr s', w2)"
    then show "I s' w2" by (rule step)
  qed simp
  then show ?thesis
  proof (elim exE conjE)
    fix r w'
    assume res: "auto_tune_batch_size run_trial cfg lo hi min_range iters num_devices gmf w
                  = Some (r, w')"
      and post: "case r of
                 Inl e \<Rightarrow>
                   True
                   \<or> (gmf < 1 \<and> mount w (autotuner_session_config_path cfg) = None)
                   \<or> (\<exists>s w2. I s w2 \<and> max_batch_size s - min_batch_size s \<le> min_range
                         \<and> e = FileNotFoundError \<and> spawned w' = spawned w2
                         \<and> (autotuner_config_path cfg \<notin> files w2
                              \<or> mount w2 (autotuner_config_path cfg) \<noteq> Some LocalFS
                              \<or> (gmf < 1
                                   \<and> (autotuner_session_config_path cfg
                                          \<notin> files w2 - {autotuner_config_path cfg}
                                        \<or> mount w2 (autotuner_session_config_path cfg)
                                            \<noteq> Some LocalFS))))
               | Inr v \<Rightarrow>
                   (\<exists>s w2. I s w2 \<and> max_batch_size s - min_batch_size s \<le> min_range
                      \<and> v = min_batch_size s \<and> spawned w' = spawned w2
                      \<and> files w' \<subseteq> files w2
                      \<and> autotuner_config_path cfg \<notin> files w'
                      \<and> (gmf < 1 \<longrightarrow> autotuner_session_config_path cfg \<notin> files w'))"
    have "\<forall>v. r = Inr v \<longrightarrow> (\<exists>s w2. I s w2 \<and> v = min_batch_size s)"
    proof (cases r)
      case (Inr v)
      with post show ?thesis by auto
    qed simp
    with res show ?thesis by blast
  qed
qed

lemma auto_tune_batch_size_bounds:
  assumes prec: "1 \<le> min_range" and order: "lo \<le> hi"
  shows "\<exists>r w'. auto_tune_batch_size run_trial cfg lo hi min_range iters num_devices gmf w
                  = Some (r, w')
           \<and> (\<forall>v. r = Inr v \<longrightarrow> lo \<le> v \<and> v \<le> hi)"
proof -
  define I :: "tune_state \<Rightarrow> world \<Rightarrow> bool"
    where "I = (\<lambda>s w1. lo \<le> min_batch_size s \<and> min_batch_size s \<le> max_batch_size s
                        \<and> max_batch_size s \<le> hi)"
  have "\<exists>r w'. auto_tune_batch_size run_trial cfg lo hi min_range iters num_devices gmf w
                  = Some (r, w')
           \<and> (\<forall>v. r = Inr v \<longrightarrow> (\<exists>s w2. I s w2 \<and> v = min_batch_size s))"
  proof (rule auto_tune_batch_size_returns [where I = I, OF prec])
    fix c :: config and w1 :: world
    show "I \<lparr>tune_config = c, min_batch_size = lo, max_batch_size = hi\<rparr> w1"
      using order by (simp add: I_def)
  next
    fix args :: trial_args and s s' :: tune_state and w1 w2 :: world
    assume "I s w1" and g: "min_range < max_batch_size s - min_batch_size s"
      and it: "tune_iteration run_trial args (autotuner_config_path cfg) num_devices s w1
                 = (Inr s', w2)"
    with tune_iteration_shrinks [OF prec g it] show "I s' w2"
      by (simp add: I_def)
  qed
  then show ?thesis
    unfolding I_def by (elim exE conjE) fastforce
qed

lemma accum_1024_512: "count_batch_accum 1024 512 1 = Inr 1"
  by code_simp

lemma accum_1280_1536: "count_batch_accum 1280 1536 1 = Inr 2"
  by code_simp

text \<open>
  Claim C9, as amended. When the batch size is searched for (no batch size, a batch type
  other than \<^verbatim>\<open>"examples"\<close>) and an effective batch size \<open>target\<close> is configured, the
  search runs between 1024 and \<open>min 16384 target\<close>. If moreover \<open>target \<ge> 1024\<close>, finalizing
  ends, and a batch size it sets lies between 1024 and \<open>min 16384 target\<close>: it does not
  exceed the effective batch size.
\<close>

theorem autotuned_size_bounded:
  assumes "batch_size cfg = None \<or> batch_size cfg = Some 0"
    and "batch_type cfg \<noteq> ''examples''"
    and "effective_batch_size cfg = Some target"
    and "1024 \<le> target"
  shows "finalize_training_parameters run_trial num_devices cfg w =
           (case auto_tune_batch_size run_trial cfg 1024 (min 16384 target) 256 5 num_devices
                   (4 / 5) w of
              None \<Rightarrow> None
            | Some (Inl e, w') \<Rightarrow> Some (Inl e, w')
            | Some (Inr bsz, w') \<Rightarrow>
                Some (set_gradients_accum num_devices (cfg\<lparr>batch_size := Some bsz\<rparr>), w'))
       \<and> (\<exists>r w'. finalize_training_parameters run_trial num_devices cfg w = Some (r, w')
             \<and> (\<forall>cfg'. r = Inr cfg'
                   \<longrightarrow> (\<exists>b. batch_size cfg' = Some b \<and> 1024 \<le> b \<and> b \<le> 16384 \<and> b \<le> target)))"
proof
  show unfold: "finalize_training_parameters run_trial num_devices cfg w =
           (case auto_tune_batch_size run_trial cfg 1024 (min 16384 target) 256 5 num_devices
                   (4 / 5) w of
              None \<Rightarrow> None
            | Some (Inl e, w') \<Rightarrow> Some (Inl e, w')
            | Some (Inr bsz, w') \<Rightarrow>
                Some (set_gradients_accum num_devices (cfg\<lparr>batch_size := Some bsz\<rparr>), w'))"
    using assms(1-3) by (auto simp: finalize_training_parameters_def)
  have "(1::int) \<le> 256" by simp
  moreover from assms(4) have "1024 \<le> min 16384 target" by simp
  ultimately obtain r w' where
    run: "auto_tune_batch_size run_trial cfg 1024 (min 16384 target) 256 5 num_devices (4 / 5) w
            = Some (r, w')"
    and bounds: "\<forall>v. r = Inr v \<longrightarrow> 1024 \<le> v \<and> v \<le> min 16384 target"
    using auto_tune_batch_size_bounds by blast
  show "\<exists>r w'. finalize_training_parameters run_trial num_devices cfg w = Some (r, w')
             \<and> (\<forall>cfg'. r = Inr cfg'
                   \<longrightarrow> (\<exists>b. batch_size cfg' = Some b \<and> 1024 \<le> b \<and> b \<le> 16384 \<and> b \<le> target))"
  proof (cases r)
    case (Inl e)
    with run show ?thesis unfolding unfold by simp
  next
    case (Inr v)
    with bounds have v: "1024 \<le> v" "v \<le> 16384" "v \<le> target" by simp_all
    have "batch_size cfg' = Some v"
      if "set_gradients_accum num_devices (cfg\<lparr>batch_size := Some v\<rparr>) = Inr cfg'" for cfg'
      using set_gradients_accum_batch_size [OF that] by simp
    with run Inr v show ?thesis unfolding unfold by simp
  qed
qed

text \<open>An effective batch size of 1536: one trial, at 1280, which becomes the batch size.\<close>

theorem autotuned_size_bounded_witness:
  "batch_size (example_config\<lparr>effective_batch_size := Some 1536\<rparr>) = None
   \<and> batch_type (example_config\<lparr>effective_batch_size := Some 1536\<rparr>) \<noteq> ''examples''
   \<and> effective_batch_size (example_config\<lparr>effective_batch_size := Some 1536\<rparr>) = Some 1536
   \<and> (1024::int) \<le> 1536
   \<and> map_option fst (finalize_training_parameters (threshold_runner 9000) 1
        (example_config\<lparr>effective_batch_size := Some 1536\<rparr>) empty_world)
      = Some (Inr (example_config\<lparr>batch_size := Some 1280, effective_batch_size := Some 1536,
                                   gradients_accum := Some 2\<rparr>))
   \<and> (1024::int) \<le> 1280 \<and> (1280::int) \<le> 16384 \<and> (1280::int) \<le> 1536"
proof -
  let ?cfg = "example_config\<lparr>effective_batch_size := Some 1536\<rparr>"
  have h: "batch_size ?cfg = None \<or> batch_size ?cfg = Some 0" "batch_type ?cfg \<noteq> ''examples''"
    "effective_batch_size ?cfg = Some 1536" "(1024::int) \<le> 1536"
    by (simp_all add: example_config_def)
  have search: "map_option fst (auto_tune_batch_size (threshold_runner 9000) ?cfg 1024 1536 256 5 1
                  (4 / 5) empty_world) = Some (Inr 1280)"
    by (simp add: auto_tune_batch_size_def tune_loop.simps tune_iteration_def trial_config_def
        threshold_runner_def accum_1280_1536 example_config_def empty_world_def path_join_def
        write_file_def os_remove_def cleanup_temporary_files_def autotuner_config_path_def
        autotuner_session_config_path_def Let_def insert_Diff_if)
  then obtain w' where run: "auto_tune_batch_size (threshold_runner 9000) ?cfg 1024 1536 256 5 1
                  (4 / 5) empty_world = Some (Inr 1280, w')"
    by auto
  have "map_option fst (finalize_training_parameters (threshold_runner 9000) 1 ?cfg empty_world)
      = Some (Inr (example_config\<lparr>batch_size := Some 1280, effective_batch_size := Some 1536,
                                   gradients_accum := Some 2\<rparr>))"
    using autotuned_size_bounded [OF h, of "threshold_runner 9000" 1 empty_world] run
    by (simp add: set_gradients_accum_def accum_1280_1536 example_config_def)
  with h show ?thesis by (simp add: example_config_def)
qed

text \<open>
  Claim C9 as stated has no lower limit on the effective batch size. With the effective
  batch size 512 the range starts as \<open>[1024, 512]\<close>; the loop does not run, and the search
  returns its lower bound 1024, above the effective batch size. (Here a trial configuration
  file is left from an earlier search; without one the removal raises, as seen above.)
\<close>

theorem autotuned_size_counterexample:
  "finalize_training_parameters (threshold_runner 9000) 1
     (example_config\<lparr>effective_batch_size := Some 512\<rparr>)
     (empty_world\<lparr>files := {''run/batch_size_autotuner.yml''}\<rparr>)
   = Some (Inr (example_config\<lparr>batch_size := Some 1024, effective_batch_size := Some 512,
                                gradients_accum := Some 1\<rparr>),
           empty_world)
   \<and> \<not> (1024::int) \<le> 512"
  by (simp add: finalize_training_parameters_def auto_tune_batch_size_def tune_loop.simps
      set_gradients_accum_def accum_1024_512 example_config_def empty_world_def path_join_def
      write_file_def os_remove_def cleanup_temporary_files_def autotuner_config_path_def
      autotuner_session_config_path_def Let_def insert_Diff_if)

section \<open>Verification: the checkpoint restored by train\<close>

text \<open>
  Claim C10. When \<^verbatim>\<open>train\<close> is given no checkpoint path and the checkpoint manager of
  the model directory has recovered a latest checkpoint \<open>p\<close>, then \<^verbatim>\<open>checkpoint.restore\<close>
  is called once, with \<open>p\<close>, before the loop: the loop starts at the iteration count that
  \<open>p\<close> holds (or is not entered, when that count has reached the number of training
  steps), and an exception of the restoration is the outcome of \<^verbatim>\<open>train\<close>.
\<close>

theorem resume_from_model_dir:
  assumes "manager_latest_checkpoint env output_dir = Some p"
  shows "snd (restore_checkpoint env output_dir last_step None) = [p]
       \<and> (\<forall>n. restore env p = Inr n
             \<longrightarrow> fst (restore_checkpoint env output_dir last_step None)
                   = Inr (if (case last_step of None \<Rightarrow> False | Some t \<Rightarrow> t \<le> n)
                          then Already_Trained output_dir else Enter_Loop n))
       \<and> (\<forall>e. restore env p = Inl e
             \<longrightarrow> fst (restore_checkpoint env output_dir last_step None) = Inl e)"
proof (cases "restore env p")
  case (Inl e)
  with assms show ?thesis by (simp add: restore_checkpoint_def)
next
  case (Inr n)
  with assms show ?thesis
    by (cases last_step) (simp_all add: restore_checkpoint_def)
qed

theorem resume_from_model_dir_witness:
  "manager_latest_checkpoint example_checkpoints ''run'' = Some ''run/ckpt-5000''
   \<and> restore example_checkpoints ''run/ckpt-5000'' = Inr 5000
   \<and> restore_checkpoint example_checkpoints ''run'' (Some 10000) None
       = (Inr (Enter_Loop 5000), [''run/ckpt-5000''])"
proof -
  have m: "manager_latest_checkpoint example_checkpoints ''run'' = Some ''run/ckpt-5000''"
    and r: "restore example_checkpoints ''run/ckpt-5000'' = Inr 5000"
    by (simp_all add: example_checkpoints_def)
  from resume_from_model_dir [OF m, of "Some 10000"] r
  have "snd (restore_checkpoint example_checkpoints ''run'' (Some 10000) None) = [''run/ckpt-5000'']"
    and "fst (restore_checkpoint example_checkpoints ''run'' (Some 10000) None)
           = Inr (Enter_Loop 5000)"
    by simp_all
  with m r show ?thesis by (simp add: prod_eq_iff)
qed

section \<open>Verification: gradient accumulation\<close>

lemma length_accumulate:
  assumes "\<forall>sg\<in>set w. length sg = nv"
  shows "length (foldl (map2 (+)) (replicate nv (0::'g::{plus,zero})) w) = nv"
  using assms by (induction w rule: rev_induct) simp_all

lemma app_nat:
  assumes "1 \<le> k"
  shows "(int n + 1) mod k = 0 \<longleftrightarrow> nat k dvd Suc n"
proof -
  from assms have k: "k = int (nat k)" by simp
  have "(int n + 1) mod k = 0 \<longleftrightarrow> k dvd int (Suc n)"
    by (simp add: dvd_eq_mod_eq_0 add.commute)
  also have "\<dots> \<longleftrightarrow> int (nat k) dvd int (Suc n)" using k by simp
  also have "\<dots> \<longleftrightarrow> nat k dvd Suc n" by (rule int_dvd_int_iff)
  finally show ?thesis .
qed

lemma window_start_le:
  "(if n = 0 then 0 else if n < K then 1 else (n div K) * K) \<le> (n::nat)"
  by simp

lemma window_start_Suc:
  fixes K n :: nat
  assumes K: "1 \<le> K"
  shows "(if Suc n < K then 1 else (Suc n div K) * K)
         = (if n = 0 \<or> K dvd Suc n then Suc n else if n < K then 1 else (n div K) * K)"
proof (cases "n = 0")
  case True
  with K show ?thesis by (cases "K = 1") auto
next
  case n: False
  show ?thesis
  proof (cases "K dvd Suc n")
    case True
    then have "Suc n div K * K = Suc n" by simp
    moreover from True have "K \<le> Suc n" by (rule dvd_imp_le) simp
    ultimately show ?thesis using True by simp
  next
    case False
    then have d: "Suc n div K = n div K"
      by (simp add: div_Suc dvd_eq_mod_eq_0)
    from False have ne: "Suc n \<noteq> K" by auto
    have "(if Suc n < K then 1 else (Suc n div K) * K) = (if n < K then 1 else (n div K) * K)"
      using ne d by auto
    with False n show ?thesis by simp
  qed
qed

lemma window_start_applied:
  fixes K i :: nat
  assumes K: "1 \<le> K" and i: "i \<noteq> 0" and dv: "K dvd Suc i"
  shows "(if i < K then 1 else (i div K) * K) = max 1 (i + 1 - K)"
proof (cases "i < K")
  case True
  then have "i + 1 - K \<le> 1" by simp
  then have "max 1 (i + 1 - K) = 1" by simp
  with True show ?thesis by simp
next
  case ge: False
  from dv obtain m where m: "Suc i = K * m" by (auto simp: dvd_def)
  with K have "m \<noteq> 0" by (cases m) auto
  then obtain m' where m': "m = Suc m'" by (cases m) auto
  from m m' have i: "i = K * m' + (K - 1)" using K by simp
  from K have K0: "K \<noteq> 0" by simp
  have "(K * m' + (K - 1)) div K = m' + (K - 1) div K"
    by (rule div_mult_self4 [OF K0])
  moreover from K have "(K - 1) div K = 0" by simp
  ultimately have "i div K = m'" using i by simp
  then have "i div K * K = K * m'" by simp
  moreover from i K have "i + 1 - K = K * m'" by simp
  moreover from ge have "1 \<le> i + 1 - K" by simp
  ultimately have "i div K * K = max 1 (i + 1 - K)" by simp
  with ge show ?thesis by simp
qed

lemma step_accumulates:
  fixes w :: "'g::{plus,zero} list list"
  assumes w: "\<forall>sg\<in>set w. length sg = nv" and sg: "length sg = nv"
    and g: "gradients st = [] \<or> gradients st = foldl (map2 (+)) (replicate nv 0) w"
    and e: "gradients st = [] \<longrightarrow> w = [] \<or> nv = 0"
  shows "gradients (step sg st) = foldl (map2 (+)) (replicate nv 0) (w @ [sg])"
proof -
  let ?B = "foldl (map2 (+)) (replicate nv (0::'g)) w"
  have lB: "length ?B = nv" by (rule length_accumulate [OF w])
  have buffers: "(if gradients st = [] then map (\<lambda>g. 0) sg else gradients st) = ?B"
  proof (cases "gradients st = []")
    case True
    with e have "w = [] \<or> nv = 0" by simp
    then have "?B = replicate nv 0"
    proof
      assume "w = []" then show ?thesis by simp
    next
      assume "nv = 0"
      with lB show ?thesis by simp
    qed
    with True sg show ?thesis by (simp add: map_replicate_const)
  next
    case False
    with g show ?thesis by simp
  qed
  from lB sg have "drop (length sg) ?B = []" by simp
  then show ?thesis
    unfolding step_def Let_def buffers by simp
qed

lemma take_drop_snoc:
  assumes "p \<le> i" "i < length ds"
  shows "take (Suc i - p) (drop p ds) = take (i - p) (drop p ds) @ [ds ! i]"
proof -
  from assms have "i - p < length (drop p ds)" by simp
  then have "take (Suc (i - p)) (drop p ds) = take (i - p) (drop p ds) @ [drop p ds ! (i - p)]"
    by (rule take_Suc_conv_app_nth)
  moreover from assms have "drop p ds ! (i - p) = ds ! i" by simp
  moreover from assms have "Suc i - p = Suc (i - p)" by simp
  ultimately show ?thesis by simp
qed

lemma train_loop_ConsD:
  assumes k: "k \<noteq> 0"
    and run: "train_loop vars (Some k) re se ls i (sg # rest) st = (err, n, st')"
  shows "\<exists>st2 :: ('g::{plus,zero}, 'v) train_state.
           applied st2 = applied (if i = 0 \<or> (int i + 1) mod k = 0
                                  then apply_gradients vars (step sg st) else step sg st)
         \<and> gradients st2 = gradients (if i = 0 \<or> (int i + 1) mod k = 0
                                  then apply_gradients vars (step sg st) else step sg st)
         \<and> iterations st2 = iterations (if i = 0 \<or> (int i + 1) mod k = 0
                                  then apply_gradients vars (step sg st) else step sg st)
         \<and> ((n = Suc i \<and> st' = st2)
              \<or> train_loop vars (Some k) re se ls (Suc i) rest st2 = (err, n, st'))"
proof -
  let ?P = "i = 0 \<or> (int i + 1) mod k = 0"
  let ?st2 = "if ?P then apply_gradients vars (step sg st) else step sg st"
  let ?n = "iterations ?st2"
  have r: "(if i = 0 then Inr 0 else py_mod (int i + 1) (Some k)) = Inr (if i = 0 then 0 else (int i + 1) mod k)"
    using k by (simp add: py_mod_def)
  have c: "((if i = 0 then 0 else (int i + 1) mod k) = 0) = ?P" by simp
  have unfold: "train_loop vars (Some k) re se ls i (sg # rest) st =
      (case numpy_mod ?n re of
         Inl e \<Rightarrow> (Some e, Suc i, ?st2)
       | Inr r1 \<Rightarrow>
           (case numpy_mod ?n se of
              Inl e \<Rightarrow> (Some e, Suc i, ?st2)
            | Inr r2 \<Rightarrow>
                (let st3 = (if r2 = 0 \<or> Some ?n = ls then ?st2\<lparr>saved := saved ?st2 @ [?n]\<rparr>
                            else ?st2)
                 in if Some ?n = ls then (None, Suc i, st3)
                    else train_loop vars (Some k) re se ls (Suc i) rest st3)))"
    unfolding train_loop.simps r sum.case Let_def c ..
  show ?thesis
  proof (cases "numpy_mod ?n re")
    case (Inl e)
    with run unfold have "n = Suc i \<and> st' = ?st2" by simp
    then show ?thesis by blast
  next
    case r1: (Inr r1)
    show ?thesis
    proof (cases "numpy_mod ?n se")
      case (Inl e)
      with run unfold r1 have "n = Suc i \<and> st' = ?st2" by simp
      then show ?thesis by blast
    next
      case r2: (Inr r2)
      let ?st3 = "if r2 = 0 \<or> Some ?n = ls then ?st2\<lparr>saved := saved ?st2 @ [?n]\<rparr> else ?st2"
      have same: "applied ?st3 = applied ?st2" "gradients ?st3 = gradients ?st2"
        "iterations ?st3 = iterations ?st2"
        by simp_all
      from run unfold r1 r2
      have "(if Some ?n = ls then (None, Suc i, ?st3)
             else train_loop vars (Some k) re se ls (Suc i) rest ?st3) = (err, n, st')"
        by (simp add: Let_def)
      then have "(n = Suc i \<and> st' = ?st3)
                 \<or> train_loop vars (Some k) re se ls (Suc i) rest ?st3 = (err, n, st')"
        by (cases "Some ?n = ls") simp_all
      with same show ?thesis by blast
    qed
  qed
qed

lemma train_loop_invariant:
  fixes ds :: "'g::{plus,zero} list list" and vars :: "'v list" and k :: int
    and st st' :: "('g, 'v) train_state"
  fixes K ps acc P A
  defines "K \<equiv> nat k"
    and "ps \<equiv> \<lambda>n::nat. if n = 0 then 0 else if n < K then 1 else (n div K) * K"
    and "acc \<equiv> foldl (map2 (+)) (replicate (length vars) (0::'g))"
    and "P \<equiv> \<lambda>j::nat. j = 0 \<or> (int j + 1) mod k = 0"
    and "A \<equiv> \<lambda>n. map (\<lambda>j. zip (acc (take (Suc j - ps j) (drop (ps j) ds))) vars)
                      (filter P [0..<n])"
  assumes k: "1 \<le> k" and len: "\<forall>sg\<in>set ds. length sg = length vars"
    and rest: "rest = drop i ds" and i: "i \<le> length ds"
    and inv_a: "applied st = A i"
    and inv_g: "gradients st = (if i = 0 then [] else acc (take (i - ps i) (drop (ps i) ds)))"
    and inv_i: "iterations st = it0 + int (length (A i))"
    and run: "train_loop vars (Some k) re se ls i rest st = (err, n, st')"
  shows "i \<le> n \<and> n \<le> length ds \<and> applied st' = A n
         \<and> iterations st' = it0 + int (length (A n))"
  using rest i inv_a inv_g inv_i run
proof (induction rest arbitrary: i st)
  case Nil
  then show ?case by simp
next
  case (Cons sg rest')
  from Cons.prems(1) have dr: "drop i ds = sg # rest'" by simp
  then have lt: "i < length ds" by (cases "i < length ds") simp_all
  from dr have sg: "sg = ds ! i" by (simp add: nth_via_drop)
  have "drop (Suc i) ds = tl (drop i ds)" by (simp add: drop_Suc tl_drop)
  with dr have rest': "rest' = drop (Suc i) ds" by simp
  from lt sg len have lsg: "length sg = length vars" by simp
  from k have K: "1 \<le> K" and k0: "k \<noteq> 0" unfolding K_def by simp_all
  have P_nat: "P j \<longleftrightarrow> j = 0 \<or> K dvd Suc j" for j
    unfolding P_def K_def by (simp only: app_nat [OF k])
  have ps_le: "ps j \<le> j" for j
    unfolding ps_def by (rule window_start_le)
  have ps_Suc: "ps (Suc j) = (if P j then Suc j else ps j)" for j
  proof -
    have "ps (Suc j) = (if Suc j < K then 1 else (Suc j div K) * K)"
      unfolding ps_def by simp
    also have "\<dots> = (if j = 0 \<or> K dvd Suc j then Suc j
                      else if j < K then 1 else (j div K) * K)"
      by (rule window_start_Suc [OF K])
    also have "\<dots> = (if P j then Suc j else ps j)"
      unfolding P_nat ps_def by simp
    finally show ?thesis .
  qed
  let ?w = "take (i - ps i) (drop (ps i) ds)"
  let ?w1 = "take (Suc i - ps i) (drop (ps i) ds)"
  have w_len: "\<forall>x\<in>set ?w. length x = length vars"
    using len by (meson in_set_dropD in_set_takeD)
  have w1: "?w1 = ?w @ [sg]"
    unfolding sg by (rule take_drop_snoc [OF ps_le lt])
  have lw: "length (acc ?w) = length vars"
    unfolding acc_def by (rule length_accumulate [OF w_len])
  let ?st1 = "step sg st"
  have g1: "gradients ?st1 = acc ?w1"
    unfolding w1 acc_def
  proof (rule step_accumulates [OF w_len lsg])
    show "gradients st = [] \<or> gradients st = foldl (map2 (+)) (replicate (length vars) 0) ?w"
      using Cons.prems(4) unfolding acc_def by (cases "i = 0") simp_all
    show "gradients st = [] \<longrightarrow> ?w = [] \<or> length vars = 0"
    proof (cases "i = 0")
      case True
      then show ?thesis by simp
    next
      case False
      with Cons.prems(4) have "gradients st = acc ?w" by simp
      with lw show ?thesis by auto
    qed
  qed
  have a1: "applied ?st1 = applied st" and i1: "iterations ?st1 = iterations st"
    by (simp_all add: step_def Let_def)
  have lw1: "length (acc ?w1) = length vars"
    unfolding acc_def w1
    by (rule length_accumulate) (use w_len lsg in auto)
  let ?ST = "if i = 0 \<or> (int i + 1) mod k = 0 then apply_gradients vars ?st1 else ?st1"
  have A_Suc: "A (Suc i) = A i @ (if P i then [zip (acc ?w1) vars] else [])"
    unfolding A_def by simp
  have ST_a: "applied ?ST = A (Suc i)"
    unfolding A_Suc using Cons.prems(3) a1 g1
    by (simp add: P_def apply_gradients_def)
  have ST_i: "iterations ?ST = it0 + int (length (A (Suc i)))"
    unfolding A_Suc using Cons.prems(5) i1
    by (simp add: P_def apply_gradients_def)
  have ST_g: "gradients ?ST = acc (take (Suc i - ps (Suc i)) (drop (ps (Suc i)) ds))"
  proof (cases "P i")
    case True
    then have "gradients ?ST = map (\<lambda>g. 0) (acc ?w1)"
      using g1 by (simp add: P_def apply_gradients_def)
    also have "\<dots> = replicate (length vars) 0"
      using lw1 by (simp add: map_replicate_const)
    also have "\<dots> = acc (take (Suc i - ps (Suc i)) (drop (ps (Suc i)) ds))"
      using True by (simp add: ps_Suc acc_def)
    finally show ?thesis .
  next
    case False
    then have "gradients ?ST = acc ?w1"
      using g1 by (simp add: P_def)
    with False show ?thesis by (simp add: ps_Suc)
  qed
  from train_loop_ConsD [OF k0 Cons.prems(6)] obtain st2 :: "('g, 'v) train_state" where
    s2: "applied st2 = applied ?ST" "gradients st2 = gradients ?ST"
      "iterations st2 = iterations ?ST"
    and alt: "(n = Suc i \<and> st' = st2)
              \<or> train_loop vars (Some k) re se ls (Suc i) rest' st2 = (err, n, st')"
    by blast
  from alt show ?case
  proof
    assume "n = Suc i \<and> st' = st2"
    with s2 ST_a ST_i lt show ?thesis by simp
  next
    assume run': "train_loop vars (Some k) re se ls (Suc i) rest' st2 = (err, n, st')"
    have "Suc i \<le> n \<and> n \<le> length ds \<and> applied st' = A n
         \<and> iterations st' = it0 + int (length (A n))"
    proof (rule Cons.IH [OF rest' _ _ _ _ run'])
      show "Suc i \<le> length ds" using lt by simp
      show "applied st2 = A (Suc i)" using s2 ST_a by simp
      show "gradients st2 = (if Suc i = 0 then []
              else acc (take (Suc i - ps (Suc i)) (drop (ps (Suc i)) ds)))"
        using s2 ST_g by simp
      show "iterations st2 = it0 + int (length (A (Suc i)))" using s2 ST_i by simp
    qed
    then show ?thesis by simp
  qed
qed

lemma accumulate_pointwise:
  fixes w :: "'g::{plus,zero} list list"
  assumes "\<forall>sg\<in>set w. length sg = nv"
  shows "foldl (map2 (+)) (replicate nv 0) w
         = map (\<lambda>v. foldl (+) 0 (map (\<lambda>sg. sg ! v) w)) [0..<nv]"
  using assms
proof (induction w rule: rev_induct)
  case Nil
  show ?case by (simp add: map_replicate_const)
next
  case (snoc x w)
  then have IH: "foldl (map2 (+)) (replicate nv 0) w
         = map (\<lambda>v. foldl (+) 0 (map (\<lambda>sg. sg ! v) w)) [0..<nv]"
    and x: "length x = nv"
    by simp_all
  have "map2 (+) (map (\<lambda>v. foldl (+) 0 (map (\<lambda>sg. sg ! v) w)) [0..<nv]) x
        = map (\<lambda>v. foldl (+) 0 (map (\<lambda>sg. sg ! v) w) + x ! v) [0..<nv]"
    using x by (intro nth_equalityI) simp_all
  with IH show ?case by simp
qed

subsection \<open>What is applied\<close>

text \<open>
  Claim C1, as amended. Let the accumulation count \<open>k\<close> be at least 1, let every step
  give one gradient for each variable, and let the loop start with no buffers and no
  application made. However the loop ends (dataset exhausted, \<open>train_steps\<close> reached, or
  an exception), with \<open>n\<close> steps made:
  \<^item> the gradients were applied after the steps \<open>i < n\<close> with \<open>i = 0\<close> or \<open>(i + 1) mod k = 0\<close>,
    and after no other;
  \<^item> the value applied for a variable after step \<open>i\<close> is the sum, from zero and in the
    order of the steps, of its gradients in the steps \<open>lo, \<dots>, i\<close>, those made since the
    application before: \<open>lo = 0\<close> for \<open>i = 0\<close>, and \<open>lo = max 1 (i + 1 - k)\<close> otherwise. This
    is the gradient of the first step alone, then (for \<open>k \<ge> 2\<close>) the \<open>k - 1\<close> gradients of
    the steps \<open>1, \<dots>, k - 1\<close>, then \<open>k\<close> gradients each time;
  \<^item> each application adds one to the iteration count of the optimizer;
  \<^item> every buffer is zero right after an application.
\<close>

theorem gradient_accumulation:
  fixes ds :: "'g::{plus,zero} list list" and vars :: "'v list"
    and st st' :: "('g, 'v) train_state"
  assumes "1 \<le> k"
    and "\<forall>step_gradients\<in>set ds. length step_gradients = length vars"
    and "gradients st = []" and "applied st = []"
    and "train_loop vars (Some k) report_every save_every last_step 0 ds st = (err, n, st')"
  shows "n \<le> length ds
       \<and> applied st' =
           map (\<lambda>i. zip (map (\<lambda>v. foldl (+) 0
                                   (map (\<lambda>step_gradients. step_gradients ! v)
                                      (take (i + 1 - (if i = 0 then 0 else max 1 (i + 1 - nat k)))
                                         (drop (if i = 0 then 0 else max 1 (i + 1 - nat k)) ds))))
                            [0..<length vars])
                       vars)
             (filter (\<lambda>i. i = 0 \<or> (int i + 1) mod k = 0) [0..<n])
       \<and> iterations st' = iterations st + int (length (applied st'))
       \<and> (\<forall>s :: ('g, 'v) train_state.
             gradients (apply_gradients vars s) = replicate (length (gradients s)) 0)"
proof -
  define K where "K = nat k"
  define ps where "ps = (\<lambda>n::nat. if n = 0 then 0 else if n < K then 1 else (n div K) * K)"
  define lo where "lo = (\<lambda>i::nat. if i = 0 then 0 else max 1 (i + 1 - nat k))"
  define acc where "acc = foldl (map2 (+)) (replicate (length vars) (0::'g))"
  define P where "P = (\<lambda>j::nat. j = 0 \<or> (int j + 1) mod k = 0)"
  define A where "A = (\<lambda>n. map (\<lambda>j. zip (acc (take (Suc j - ps j) (drop (ps j) ds))) vars)
                      (filter P [0..<n]))"
  from assms(1) have K: "1 \<le> K" unfolding K_def by simp
  have inv: "0 \<le> n \<and> n \<le> length ds \<and> applied st' = A n
         \<and> iterations st' = iterations st + int (length (A n))"
    unfolding A_def acc_def P_def ps_def K_def
    by (rule train_loop_invariant [OF assms(1,2) _ _ _ _ _ assms(5)])
       (simp_all add: assms(3,4))
  have window: "acc (take (Suc j - ps j) (drop (ps j) ds))
        = map (\<lambda>v. foldl (+) 0 (map (\<lambda>sg. sg ! v) (take (j + 1 - lo j) (drop (lo j) ds))))
            [0..<length vars]"
    if "P j" for j
  proof -
    have "ps j = lo j"
    proof (cases "j = 0")
      case True
      then show ?thesis by (simp add: ps_def lo_def)
    next
      case False
      with that have "(int j + 1) mod k = 0" by (simp add: P_def)
      then have "K dvd Suc j" unfolding K_def by (simp only: app_nat [OF assms(1)])
      from window_start_applied [OF K False this] False show ?thesis
        by (simp add: ps_def lo_def K_def)
    qed
    moreover have "\<forall>x\<in>set (take (j + 1 - lo j) (drop (lo j) ds)). length x = length vars"
      using assms(2) by (meson in_set_dropD in_set_takeD)
    ultimately show ?thesis
      unfolding acc_def by (simp add: accumulate_pointwise)
  qed
  have "A n = map (\<lambda>j. zip (map (\<lambda>v. foldl (+) 0
                                   (map (\<lambda>sg. sg ! v) (take (j + 1 - lo j) (drop (lo j) ds))))
                            [0..<length vars]) vars)
             (filter P [0..<n])"
    unfolding A_def by (rule map_cong) (simp_all add: window)
  with inv have "applied st' = map (\<lambda>j. zip (map (\<lambda>v. foldl (+) 0
                                   (map (\<lambda>sg. sg ! v) (take (j + 1 - lo j) (drop (lo j) ds))))
                            [0..<length vars]) vars)
             (filter P [0..<n])"
    and "iterations st' = iterations st + int (length (applied st'))"
    and "n \<le> length ds"
    by simp_all
  moreover have "gradients (apply_gradients vars s) = replicate (length (gradients s)) 0"
    for s :: "('g, 'v) train_state"
    by (simp add: apply_gradients_def map_replicate_const)
  ultimately show ?thesis
    unfolding lo_def P_def by blast
qed

text \<open>
  Four steps with \<open>k = 2\<close>: the gradients are applied after the steps 0, 1 and 3, as
  \<open>1\<close>, \<open>10\<close> and \<open>100 + 1000\<close>.
\<close>

theorem gradient_accumulation_witness:
  "(1::int) \<le> 2
   \<and> train_loop [''w''] (Some 2) (Some 100) (Some 5000) None 0
        [[1], [10], [100], [1000::int]] (new_train_state 0)
      = (None, 4,
         \<lparr>gradients = [0],
          applied = [[(1, ''w'')], [(10, ''w'')], [(1100, ''w'')]],
          iterations = 3, saved = []\<rparr>)
   \<and> [[(1::int, ''w'')], [(10, ''w'')], [(1100, ''w'')]]
      = map (\<lambda>i. zip (map (\<lambda>v. foldl (+) 0
                                   (map (\<lambda>step_gradients. step_gradients ! v)
                                      (take (i + 1 - (if i = 0 then 0 else max 1 (i + 1 - nat 2)))
                                         (drop (if i = 0 then 0 else max 1 (i + 1 - nat 2))
                                            [[1], [10], [100], [1000]]))))
                            [0..<length [''w'']])
                       [''w''])
             (filter (\<lambda>i. i = 0 \<or> (int i + 1) mod 2 = 0) [0..<4])"
proof -
  have run: "train_loop [''w''] (Some 2) (Some 100) (Some 5000) None 0
        [[1], [10], [100], [1000::int]] (new_train_state 0)
      = (None, 4,
         \<lparr>gradients = [0],
          applied = [[(1, ''w'')], [(10, ''w'')], [(1100, ''w'')]],
          iterations = 3, saved = []\<rparr>)"
    by code_simp
  have p: "(1::int) \<le> 2" by simp
  have l: "\<forall>step_gradients\<in>set [[1], [10], [100], [1000::int]].
             length step_gradients = length [''w'']"
    by simp
  have g: "gradients (new_train_state 0 :: (int, string) train_state) = []"
    and a: "applied (new_train_state 0 :: (int, string) train_state) = []"
    by (simp_all add: new_train_state_def)
  from gradient_accumulation [OF p l g a run]
  have "applied \<lparr>gradients = [0::int],
          applied = [[(1, ''w'')], [(10, ''w'')], [(1100, ''w'')]],
          iterations = 3, saved = []\<rparr>
      = map (\<lambda>i. zip (map (\<lambda>v. foldl (+) 0
                                   (map (\<lambda>step_gradients. step_gradients ! v)
                                      (take (i + 1 - (if i = 0 then 0 else max 1 (i + 1 - nat 2)))
                                         (drop (if i = 0 then 0 else max 1 (i + 1 - nat 2))
                                            [[1], [10], [100], [1000]]))))
                            [0..<length [''w'']])
                       [''w''])
             (filter (\<lambda>i. i = 0 \<or> (int i + 1) mod 2 = 0) [0..<4])"
    by (rule conjunct2 [THEN conjunct1])
  with run p show ?thesis by (simp only: train_state.simps simp_thms)
qed

text \<open>
  Claim C1 as stated has every application apply the sum of \<open>k\<close> gradients. With \<open>k = 3\<close>
  and three steps there are two applications: the gradient of the first step alone, and
  then the sum of the second and the third, not of all three.
\<close>

theorem gradient_accumulation_counterexample:
  "train_loop [''w''] (Some 3) (Some 100) (Some 5000) None 0
        [[1], [10], [100::int]] (new_train_state 0)
      = (None, 3,
         \<lparr>gradients = [0],
          applied = [[(1, ''w'')], [(110, ''w'')]],
          iterations = 2, saved = []\<rparr>)
   \<and> (110::int) \<noteq> 1 + 10 + 100"
  by code_simp

section \<open>Verification: the order of the predictions\<close>

lemma drain_invariant:
  fixes payload :: "int \<Rightarrow> 'p"
  assumes "drain r = (r', out)"
    and "0 \<le> next_index r"
    and "\<forall>i. 0 \<le> i \<and> i < next_index r \<longrightarrow> i \<in> S"
    and "distinct (map fst (elements r))"
    and "set (elements r) = {(i, payload i) |i. i \<in> S \<and> next_index r \<le> i}"
  shows "next_index r \<le> next_index r'
       \<and> (\<forall>i. 0 \<le> i \<and> i < next_index r' \<longrightarrow> i \<in> S)
       \<and> next_index r' \<notin> S
       \<and> distinct (map fst (elements r'))
       \<and> set (elements r') = {(i, payload i) |i. i \<in> S \<and> next_index r' < i}
       \<and> out = map payload [next_index r..next_index r' - 1]"
  using assms
proof (induction r arbitrary: r' out rule: drain.induct)
  case (1 r)
  let ?n = "next_index r"
  show ?case
  proof (cases "map_of (elements r) ?n")
    case None
    with "1.prems"(1) have r': "r' = r" and out: "out = []"
      by (simp_all add: drain.simps [of r])
    from None have "?n \<notin> fst ` set (elements r)" by (simp add: map_of_eq_None_iff)
    with "1.prems"(5) have nS: "?n \<notin> S" by force
    then have "{(i, payload i) |i. i \<in> S \<and> ?n \<le> i} = {(i, payload i) |i. i \<in> S \<and> ?n < i}"
      by (auto simp: order_le_less)
    with "1.prems" nS show ?thesis unfolding r' out by simp
  next
    case (Some p)
    let ?r1 = "r\<lparr>next_index := ?n + 1, elements := AList.delete ?n (elements r)\<rparr>"
    obtain r1' out1 where d1: "drain ?r1 = (r1', out1)" by fastforce
    with "1.prems"(1) Some have r': "r' = r1'" and out: "out = p # out1"
      by (simp_all add: drain.simps [of r])
    from Some have "(?n, p) \<in> set (elements r)" by (rule map_of_SomeD)
    with "1.prems"(5) have p: "p = payload ?n" and nS: "?n \<in> S" by auto
    have a: "0 \<le> next_index ?r1" using "1.prems"(2) by simp
    have b: "\<forall>i. 0 \<le> i \<and> i < next_index ?r1 \<longrightarrow> i \<in> S"
    proof (intro allI impI)
      fix i assume "0 \<le> i \<and> i < next_index ?r1"
      then have "i < ?n \<or> i = ?n" and "0 \<le> i" by auto
      with "1.prems"(3) nS show "i \<in> S" by auto
    qed
    have c: "distinct (map fst (elements ?r1))"
      using "1.prems"(4) by (simp add: distinct_delete)
    have "set (AList.delete ?n (elements r)) = {x \<in> set (elements r). fst x \<noteq> ?n}"
      by (auto simp: AList.delete_eq)
    also have "\<dots> = {(i, payload i) |i. i \<in> S \<and> ?n + 1 \<le> i}"
      unfolding "1.prems"(5) by auto
    finally have d: "set (elements ?r1) = {(i, payload i) |i. i \<in> S \<and> next_index ?r1 \<le> i}"
      by simp
    from "1.IH" [OF Some d1 a b c d]
    have le: "?n + 1 \<le> next_index r1'"
      and rest: "(\<forall>i. 0 \<le> i \<and> i < next_index r1' \<longrightarrow> i \<in> S)
       \<and> next_index r1' \<notin> S
       \<and> distinct (map fst (elements r1'))
       \<and> set (elements r1') = {(i, payload i) |i. i \<in> S \<and> next_index r1' < i}"
      and out1: "out1 = map payload [?n + 1..next_index r1' - 1]"
      by simp_all
    from le have "[?n..next_index r1' - 1] = ?n # [?n + 1..next_index r1' - 1]"
      by (simp add: upto_rec1)
    with out out1 p have "out = map payload [?n..next_index r1' - 1]" by simp
    with le rest show ?thesis unfolding r' by simp
  qed
qed

lemma push_invariant:
  fixes payload :: "int \<Rightarrow> 'p"
  assumes "0 \<le> i" and "i \<notin> S"
    and "0 \<le> next_index r"
    and "\<forall>j. 0 \<le> j \<and> j < next_index r \<longrightarrow> j \<in> S"
    and "next_index r \<notin> S"
    and "distinct (map fst (elements r))"
    and "set (elements r) = {(j, payload j) |j. j \<in> S \<and> next_index r < j}"
  shows "\<exists>r' out. push i (payload i) r = Inr (r', out)
       \<and> next_index r \<le> next_index r'
       \<and> (\<forall>j. 0 \<le> j \<and> j < next_index r' \<longrightarrow> j \<in> insert i S)
       \<and> next_index r' \<notin> insert i S
       \<and> distinct (map fst (elements r'))
       \<and> set (elements r') = {(j, payload j) |j. j \<in> insert i S \<and> next_index r' < j}
       \<and> out = map payload [next_index r..next_index r' - 1]"
proof -
  let ?n = "next_index r"
  consider (eq) "i = ?n" | (less) "i < ?n" | (greater) "?n < i" by linarith
  then show ?thesis
  proof cases
    case eq
    let ?r1 = "r\<lparr>next_index := ?n + 1\<rparr>"
    obtain r' out1 where d: "drain ?r1 = (r', out1)" by fastforce
    have a: "0 \<le> next_index ?r1" using assms(3) by simp
    have b: "\<forall>j. 0 \<le> j \<and> j < next_index ?r1 \<longrightarrow> j \<in> insert i S"
    proof (intro allI impI)
      fix j assume "0 \<le> j \<and> j < next_index ?r1"
      then have "j < ?n \<or> j = ?n" and "0 \<le> j" by auto
      with assms(4) eq show "j \<in> insert i S" by auto
    qed
    have c: "distinct (map fst (elements ?r1))" using assms(6) by simp
    have e: "set (elements ?r1) = {(j, payload j) |j. j \<in> insert i S \<and> next_index ?r1 \<le> j}"
      using assms(7) eq by auto
    from drain_invariant [OF d a b c e]
    have le: "?n + 1 \<le> next_index r'"
      and rest: "(\<forall>j. 0 \<le> j \<and> j < next_index r' \<longrightarrow> j \<in> insert i S)
       \<and> next_index r' \<notin> insert i S
       \<and> distinct (map fst (elements r'))
       \<and> set (elements r') = {(j, payload j) |j. j \<in> insert i S \<and> next_index r' < j}"
      and out1: "out1 = map payload [?n + 1..next_index r' - 1]"
      by simp_all
    from le have "[?n..next_index r' - 1] = ?n # [?n + 1..next_index r' - 1]"
      by (simp add: upto_rec1)
    with out1 eq have out: "payload i # out1 = map payload [?n..next_index r' - 1]" by simp
    from eq d have "push i (payload i) r = Inr (r', payload i # out1)"
      by (simp add: push_def)
    with le rest out show ?thesis by auto
  next
    case less
    with assms(1,4) have "i \<in> S" by simp
    with assms(2) show ?thesis by simp
  next
    case greater
    have "i \<notin> fst ` set (elements r)" using assms(2,7) by auto
    then have none: "map_of (elements r) i = None" by (simp add: map_of_eq_None_iff)
    let ?r' = "r\<lparr>elements := elements r @ [(i, payload i)]\<rparr>"
    from greater none have p: "push i (payload i) r = Inr (?r', [])"
      by (simp add: push_def)
    have a: "\<forall>j. 0 \<le> j \<and> j < next_index ?r' \<longrightarrow> j \<in> insert i S"
      using assms(4) by simp
    have b: "next_index ?r' \<notin> insert i S" using assms(5) greater by simp
    have c: "distinct (map fst (elements ?r'))"
      using assms(6) \<open>i \<notin> fst ` set (elements r)\<close> by simp
    have d: "set (elements ?r') = {(j, payload j) |j. j \<in> insert i S \<and> next_index ?r' < j}"
      using assms(7) greater by auto
    have e: "[] = map payload [next_index r..next_index ?r' - 1]" by simp
    from p a b c d e show ?thesis
      by (intro exI [of _ ?r'] exI [of _ "[]"]) simp
  qed
qed

lemma upto_append:
  fixes n n' :: int
  assumes "0 \<le> n" "n \<le> n'"
  shows "[0..n - 1] @ [n..n' - 1] = [0..n' - 1]"
proof (cases "n = n'")
  case True
  then show ?thesis by simp
next
  case False
  with assms have "n \<le> n' - 1" by simp
  with assms(1) show ?thesis by (rule upto_split1 [symmetric])
qed

lemma write_predictions_ordered:
  fixes payload :: "int \<Rightarrow> 'p" and st :: "'p infer_state"
  assumes "distinct order" and "\<forall>i\<in>set order. 0 \<le> i \<and> i \<notin> S"
    and "r = (case ordered_writer st of None \<Rightarrow> new_restorer | Some w \<Rightarrow> w)"
    and "0 \<le> next_index r"
    and "\<forall>j. 0 \<le> j \<and> j < next_index r \<longrightarrow> j \<in> S"
    and "next_index r \<notin> S"
    and "distinct (map fst (elements r))"
    and "set (elements r) = {(j, payload j) |j. j \<in> S \<and> next_index r < j}"
    and "written (stream st) = base @ map payload [0..next_index r - 1]"
  shows "\<exists>st' r'. write_predictions (map (\<lambda>i. \<lparr>index = Some i, content = payload i\<rparr>) order) st
                   = (None, st')
       \<and> r' = (case ordered_writer st' of None \<Rightarrow> new_restorer | Some w \<Rightarrow> w)
       \<and> 0 \<le> next_index r'
       \<and> (\<forall>j. 0 \<le> j \<and> j < next_index r' \<longrightarrow> j \<in> S \<union> set order)
       \<and> next_index r' \<notin> S \<union> set order
       \<and> set (elements r') = {(j, payload j) |j. j \<in> S \<union> set order \<and> next_index r' < j}
       \<and> written (stream st') = base @ map payload [0..next_index r' - 1]
       \<and> stream_file (stream st') = stream_file (stream st)
       \<and> stream_closed (stream st') = stream_closed (stream st)"
  using assms
proof (induction order arbitrary: st S r)
  case Nil
  then show ?case by simp
next
  case (Cons i rest)
  from Cons.prems(1) have dr: "distinct rest" and ir: "i \<notin> set rest" by simp_all
  from Cons.prems(2) have i0: "0 \<le> i" and iS: "i \<notin> S" by simp_all
  from push_invariant [OF i0 iS Cons.prems(4-8)]
  obtain r1 out where p: "push i (payload i) r = Inr (r1, out)"
    and le: "next_index r \<le> next_index r1"
    and b: "\<forall>j. 0 \<le> j \<and> j < next_index r1 \<longrightarrow> j \<in> insert i S"
    and c: "next_index r1 \<notin> insert i S"
    and d: "distinct (map fst (elements r1))"
    and e: "set (elements r1) = {(j, payload j) |j. j \<in> insert i S \<and> next_index r1 < j}"
    and out: "out = map payload [next_index r..next_index r1 - 1]"
    by blast
  let ?st1 = "write_fn out (st\<lparr>ordered_writer := Some r1\<rparr>)"
  have run: "write_predictions
               (map (\<lambda>i. \<lparr>index = Some i, content = payload i\<rparr>) (i # rest)) st
             = write_predictions (map (\<lambda>i. \<lparr>index = Some i, content = payload i\<rparr>) rest) ?st1"
    using p Cons.prems(3) by (simp add: Let_def)
  have w1: "r1 = (case ordered_writer ?st1 of None \<Rightarrow> new_restorer | Some w \<Rightarrow> w)"
    by (simp add: write_fn_def)
  from Cons.prems(4) le have a: "0 \<le> next_index r1" by simp
  have "written (stream ?st1) = written (stream st) @ out"
    by (simp add: write_fn_def)
  also have "\<dots> = base @ (map payload [0..next_index r - 1]
                            @ map payload [next_index r..next_index r1 - 1])"
    using Cons.prems(9) out by simp
  also have "map payload [0..next_index r - 1] @ map payload [next_index r..next_index r1 - 1]
             = map payload [0..next_index r1 - 1]"
    using upto_append [OF Cons.prems(4) le] by (simp flip: map_append)
  finally have f: "written (stream ?st1) = base @ map payload [0..next_index r1 - 1]" .
  have g: "\<forall>j\<in>set rest. 0 \<le> j \<and> j \<notin> insert i S"
    using Cons.prems(2) ir by auto
  have same: "stream_file (stream ?st1) = stream_file (stream st)"
    "stream_closed (stream ?st1) = stream_closed (stream st)"
    by (simp_all add: write_fn_def)
  have u: "insert i S \<union> set rest = S \<union> set (i # rest)" by simp
  from Cons.IH [OF dr g w1 a b c d e f]
  show ?case unfolding run u same .
qed

subsection \<open>The order restorer in inference\<close>

text \<open>
  Claim C3. Let the predictions carry the indices \<open>0, \<dots>, n - 1\<close>, each once and in any
  order, the prediction with the index \<open>i\<close> having the payload \<open>payload i\<close>. Pushed one at
  a time through a new order restorer, as the loop of \<^verbatim>\<open>infer\<close> does, they all reach the
  stream, in the order \<open>payload 0, \<dots>, payload (n - 1)\<close>: no exception is raised, nothing
  is left in the buffer, and the restorer expects the index \<open>n\<close> next.
\<close>

theorem order_restored:
  fixes payload :: "int \<Rightarrow> 'p" and st :: "'p infer_state"
  assumes "distinct order" and "set order = {0..<n}"
    and "ordered_writer st = None"
  shows "\<exists>st'. write_predictions (map (\<lambda>i. \<lparr>index = Some i, content = payload i\<rparr>) order) st
                 = (None, st')
       \<and> written (stream st') = written (stream st) @ map payload [0..n - 1]
       \<and> (order \<noteq> [] \<longrightarrow> ordered_writer st' = Some \<lparr>next_index = n, elements = []\<rparr>)"
proof -
  let ?r = "new_restorer :: 'p order_restorer"
  have r: "?r = (case ordered_writer st of None \<Rightarrow> new_restorer | Some w \<Rightarrow> w)"
    using assms(3) by simp
  have pos: "\<forall>i\<in>set order. 0 \<le> i \<and> i \<notin> {}" using assms(2) by simp
  from write_predictions_ordered
    [OF assms(1) pos r, where payload = payload and base = "written (stream st)"]
  obtain st' r' where run: "write_predictions
        (map (\<lambda>i. \<lparr>index = Some i, content = payload i\<rparr>) order) st = (None, st')"
    and r': "r' = (case ordered_writer st' of None \<Rightarrow> new_restorer | Some w \<Rightarrow> w)"
    and a: "0 \<le> next_index r'"
    and b: "\<forall>j. 0 \<le> j \<and> j < next_index r' \<longrightarrow> j \<in> set order"
    and c: "next_index r' \<notin> set order"
    and e: "set (elements r') = {(j, payload j) |j. j \<in> set order \<and> next_index r' < j}"
    and f: "written (stream st') = written (stream st) @ map payload [0..next_index r' - 1]"
    by (auto simp: new_restorer_def)
  have nx: "next_index r' = max 0 n"
  proof (rule ccontr)
    assume ne: "next_index r' \<noteq> max 0 n"
    show False
    proof (cases "next_index r' < max 0 n")
      case True
      with a have "next_index r' \<in> {0..<n}" by auto
      with c assms(2) show False by simp
    next
      case False
      with ne have gt: "max 0 n < next_index r'" by linarith
      then have "0 \<le> max 0 n \<and> max 0 n < next_index r'" by linarith
      with b have "max 0 n \<in> set order" by blast
      with assms(2) show False by auto
    qed
  qed
  have up: "[0..max 0 n - 1] = [0..n - 1]" by (cases "0 \<le> n") simp_all
  from f nx up have w: "written (stream st') = written (stream st) @ map payload [0..n - 1]"
    by simp
  have "set (elements r') = {}"
    unfolding e using assms(2) nx by auto
  then have el: "elements r' = []" by simp
  have "ordered_writer st' = Some \<lparr>next_index = n, elements = []\<rparr>" if ne: "order \<noteq> []"
  proof -
    from ne obtain i where "i \<in> set order" by (cases order) auto
    with assms(2) have n: "0 < n" by auto
    with nx a have "next_index r' \<noteq> 0" by simp
    with r' obtain w where w: "ordered_writer st' = Some w" and "r' = w"
      by (cases "ordered_writer st'") (auto simp: new_restorer_def)
    with el nx n have "w = \<lparr>next_index = n, elements = []\<rparr>" by simp
    with w show ?thesis by simp
  qed
  with run w show ?thesis by blast
qed

text \<open>The indices 2, 0, 1 pushed in this order reach the stream as 0, 1, 2.\<close>

theorem order_restored_witness:
  "distinct [2, 0, 1 :: int] \<and> set [2, 0, 1] = {0..<3 :: int}
   \<and> write_predictions
        [\<lparr>index = Some 2, content = 2 :: int\<rparr>, \<lparr>index = Some 0, content = 0\<rparr>,
         \<lparr>index = Some 1, content = 1\<rparr>]
        \<lparr>stream = sys_stdout, ordered_writer = None, total_time = 0, total_tokens = 0,
         total_examples = 0\<rparr>
      = (None,
         \<lparr>stream = \<lparr>stream_file = None, written = [0, 1, 2], stream_closed = False\<rparr>,
          ordered_writer = Some \<lparr>next_index = 3, elements = []\<rparr>,
          total_time = 0, total_tokens = 0, total_examples = 0\<rparr>)"
proof -
  let ?st = "\<lparr>stream = sys_stdout, ordered_writer = None, total_time = 0, total_tokens = 0,
              total_examples = 0\<rparr> :: int infer_state"
  have d: "distinct [2, 0, 1 :: int]" by simp
  have s: "set [2, 0, 1] = {0..<3 :: int}" by auto
  have o: "ordered_writer ?st = None" by simp
  have run: "write_predictions
        [\<lparr>index = Some 2, content = 2 :: int\<rparr>, \<lparr>index = Some 0, content = 0\<rparr>,
         \<lparr>index = Some 1, content = 1\<rparr>] ?st
      = (None,
         \<lparr>stream = \<lparr>stream_file = None, written = [0, 1, 2], stream_closed = False\<rparr>,
          ordered_writer = Some \<lparr>next_index = 3, elements = []\<rparr>,
          total_time = 0, total_tokens = 0, total_examples = 0\<rparr>)"
    by code_simp
  from order_restored [OF d s o, of "\<lambda>i. i"]
  have "\<exists>st'. write_predictions
        [\<lparr>index = Some 2, content = 2 :: int\<rparr>, \<lparr>index = Some 0, content = 0\<rparr>,
         \<lparr>index = Some 1, content = 1\<rparr>] ?st = (None, st')
       \<and> written (stream st') = [0, 1, 2]
       \<and> ordered_writer st' = Some \<lparr>next_index = 3, elements = []\<rparr>"
    by (simp del: write_predictions.simps add: sys_stdout_def upto_rec1)
  with d s run show ?thesis by (simp only: simp_thms)
qed

section \<open>Verification: the output stream\<close>

lemma write_predictions_stream:
  assumes "write_predictions ps st = (err, st')"
  shows "stream_file (stream st') = stream_file (stream st)
       \<and> stream_closed (stream st') = stream_closed (stream st)"
  using assms
proof (induction ps arbitrary: st)
  case Nil
  then show ?case by simp
next
  case (Cons p ps)
  show ?case
  proof (cases "index p")
    case None
    with Cons.prems
    have "write_predictions ps (write_fn [content p] st) = (err, st')" by simp
    from Cons.IH [OF this] show ?thesis by (simp add: write_fn_def)
  next
    case (Some i)
    let ?w = "case ordered_writer st of None \<Rightarrow> new_restorer | Some w \<Rightarrow> w"
    show ?thesis
    proof (cases "push i (content p) ?w")
      case (Inl e)
      with Cons.prems Some have "st' = st\<lparr>ordered_writer := Some ?w\<rparr>"
        by (simp add: Let_def)
      then show ?thesis by simp
    next
      case (Inr res)
      obtain w' out where res: "res = (w', out)" by (cases res)
      with Cons.prems Some Inr
      have "write_predictions ps (write_fn out (st\<lparr>ordered_writer := Some w'\<rparr>)) = (err, st')"
        by (simp add: Let_def)
      from Cons.IH [OF this] show ?thesis by (simp add: write_fn_def)
    qed
  qed
qed

lemma infer_loop_stream:
  assumes "infer_loop log_time dataset st = (err, st')"
  shows "stream_file (stream st') = stream_file (stream st)
       \<and> stream_closed (stream st') = stream_closed (stream st)"
  using assms
proof (induction dataset arbitrary: st)
  case Nil
  then show ?case by simp
next
  case (Cons batch dataset)
  show ?case
  proof (cases batch)
    case (Inl e)
    with Cons.prems show ?thesis by simp
  next
    case (Inr predictions)
    let ?st1 = "if log_time
                then st\<lparr>total_time := double_round (total_time st + seconds predictions),
                        total_examples := total_examples st + int (length (examples predictions)),
                        total_tokens :=
                          (case lengths predictions of
                             None \<Rightarrow> total_tokens st
                           | Some l \<Rightarrow> total_tokens st + sum_list l)\<rparr>
                else st"
    have s1: "stream ?st1 = stream st" by simp
    obtain e2 st2 where w: "write_predictions (examples predictions) ?st1 = (e2, st2)"
      by fastforce
    from write_predictions_stream [OF w] s1
    have s2: "stream_file (stream st2) = stream_file (stream st)
              \<and> stream_closed (stream st2) = stream_closed (stream st)"
      by simp
    show ?thesis
    proof (cases e2)
      case None
      with Cons.prems Inr w have "infer_loop log_time dataset st2 = (err, st')"
        by (simp add: Let_def)
      from Cons.IH [OF this] s2 show ?thesis by simp
    next
      case (Some e)
      with Cons.prems Inr w have "st' = st2" by (simp add: Let_def)
      with s2 show ?thesis by simp
    qed
  qed
qed

lemma score_loop_stream:
  assumes "score_loop dataset s = (err, s')"
  shows "stream_file s' = stream_file s \<and> stream_closed s' = stream_closed s"
  using assms
proof (induction dataset arbitrary: s)
  case Nil
  then show ?case by simp
next
  case (Cons batch dataset)
  show ?case
  proof (cases batch)
    case (Inl e)
    with Cons.prems show ?thesis by simp
  next
    case (Inr sentences)
    with Cons.prems
    have "score_loop dataset (s\<lparr>written := written s @ sentences\<rparr>) = (err, s')" by simp
    from Cons.IH [OF this] show ?thesis by simp
  qed
qed

text \<open>
  Claim C8, as amended. When \<^verbatim>\<open>infer\<close> or \<^verbatim>\<open>score\<close> has opened a file for its output and
  ends without an exception, the stream of that file is closed when the function
  returns.
\<close>

theorem stream_closed_on_return:
  "(\<forall>st. f \<noteq> [] \<and> infer (Some f) log_time dataset = (None, st)
          \<longrightarrow> stream_file (stream st) = Some f \<and> stream_closed (stream st))
   \<and> (\<forall>s. f \<noteq> [] \<and> score model predictions_file (Some f) batches = (None, Some s)
          \<longrightarrow> stream_file s = Some f \<and> stream_closed s)"
proof (rule conjI; intro allI impI)
  fix st :: "'a infer_state"
  assume a: "f \<noteq> [] \<and> infer (Some f) log_time dataset = (None, st)"
  then have ne: "f \<noteq> []" and run: "infer (Some f) log_time dataset = (None, st)"
    by simp_all
  let ?st0 = "\<lparr>stream = io_open f, ordered_writer = None, total_time = 0, total_tokens = 0,
               total_examples = 0\<rparr> :: 'a infer_state"
  have unfold: "infer (Some f) log_time dataset =
      (case infer_loop log_time dataset ?st0 of
         (Some e, st) \<Rightarrow> (Some e, st)
       | (None, st) \<Rightarrow>
           (case (if log_time then log_times st else None) of
              Some e \<Rightarrow> (Some e, st)
            | None \<Rightarrow> (None, st\<lparr>stream := stream_close (stream st)\<rparr>)))"
    using ne by (simp add: infer_def Let_def split: prod.split option.split)
  obtain e1 st1 where l: "infer_loop log_time dataset ?st0 = (e1, st1)" by fastforce
  from infer_loop_stream [OF l]
  have s1: "stream_file (stream st1) = Some f" by (simp add: io_open_def)
  from run l have e1: "e1 = None"
    unfolding unfold by (cases e1) simp_all
  from run l e1 have "st = st1\<lparr>stream := stream_close (stream st1)\<rparr>"
    unfolding unfold
    by (cases "if log_time then log_times st1 else None") simp_all
  with s1 show "stream_file (stream st) = Some f \<and> stream_closed (stream st)"
    by (simp add: stream_close_def)
next
  fix s :: "'b out_stream"
  assume a: "f \<noteq> [] \<and> score model predictions_file (Some f) batches = (None, Some s)"
  then have ne: "f \<noteq> []"
    and run: "score model predictions_file (Some f) batches = (None, Some s)"
    by simp_all
  have c1: "model \<noteq> OtherModel"
  proof
    assume "model = OtherModel"
    with run show False by (simp add: score_def)
  qed
  have c2: "\<not> (model = SequenceToSequence
               \<and> (predictions_file = None \<or> predictions_file = Some []))"
  proof
    assume "model = SequenceToSequence
               \<and> (predictions_file = None \<or> predictions_file = Some [])"
    with run show False by (simp add: score_def)
  qed
  have unfold: "score model predictions_file (Some f) batches =
      (case score_loop batches (io_open f) of
         (Some e, s) \<Rightarrow> (Some e, Some s)
       | (None, s) \<Rightarrow> (None, Some (stream_close s)))"
    using ne c1 c2 by (simp add: score_def Let_def split: prod.split option.split)
  obtain e1 s1 where l: "score_loop batches (io_open f :: 'b out_stream) = (e1, s1)"
    by fastforce
  from score_loop_stream [OF l] have s1: "stream_file s1 = Some f" by (simp add: io_open_def)
  from run l have e1: "e1 = None"
    unfolding unfold by (cases e1) simp_all
  from run l e1 have "s = stream_close s1"
    unfolding unfold by simp
  with s1 show "stream_file s = Some f \<and> stream_closed s"
    by (simp add: stream_close_def)
qed

text \<open>
  An inference of three predictions in two batches, and a scoring of three sentences in
  two batches, each into a file.
\<close>

theorem stream_closed_on_return_witness:
  "infer (Some ''out.txt'') False
     [Inr \<lparr>examples = [\<lparr>index = Some 2, content = ''c''\<rparr>, \<lparr>index = Some 0, content = ''a''\<rparr>],
           lengths = None, seconds = 1 / 4\<rparr>,
      Inr \<lparr>examples = [\<lparr>index = Some 1, content = ''b''\<rparr>], lengths = None, seconds = 1 / 4\<rparr>]
    = (None,
       \<lparr>stream = \<lparr>stream_file = Some ''out.txt'', written = [''a'', ''b'', ''c''],
                  stream_closed = True\<rparr>,
        ordered_writer = Some \<lparr>next_index = 3, elements = []\<rparr>,
        total_time = 0, total_tokens = 0, total_examples = 0\<rparr>)
   \<and> score LanguageModel None (Some ''scores.txt'') [Inr [''a'', ''b''], Inr [''c'']]
    = (None,
       Some \<lparr>stream_file = Some ''scores.txt'', written = [''a'', ''b'', ''c''],
             stream_closed = True\<rparr>)"
proof -
  have i: "infer (Some ''out.txt'') False
     [Inr \<lparr>examples = [\<lparr>index = Some 2, content = ''c''\<rparr>, \<lparr>index = Some 0, content = ''a''\<rparr>],
           lengths = None, seconds = 1 / 4\<rparr>,
      Inr \<lparr>examples = [\<lparr>index = Some 1, content = ''b''\<rparr>], lengths = None, seconds = 1 / 4\<rparr>]
    = (None,
       \<lparr>stream = \<lparr>stream_file = Some ''out.txt'', written = [''a'', ''b'', ''c''],
                  stream_closed = True\<rparr>,
        ordered_writer = Some \<lparr>next_index = 3, elements = []\<rparr>,
        total_time = 0, total_tokens = 0, total_examples = 0\<rparr>)"
    by code_simp
  have s: "score LanguageModel None (Some ''scores.txt'') [Inr [''a'', ''b''], Inr [''c'']]
    = (None,
       Some \<lparr>stream_file = Some ''scores.txt'', written = [''a'', ''b'', ''c''],
             stream_closed = True\<rparr>)"
    by code_simp
  have ne: "''out.txt'' \<noteq> []" "''scores.txt'' \<noteq> []" by simp_all
  from stream_closed_on_return [THEN conjunct1, rule_format, OF conjI, OF ne(1) i]
  have "stream_closed \<lparr>stream_file = Some ''out.txt'', written = [''a'', ''b'', ''c''],
                  stream_closed = True\<rparr>"
    by simp
  moreover
  from stream_closed_on_return [THEN conjunct2, rule_format, OF conjI, OF ne(2) s]
  have "stream_closed \<lparr>stream_file = Some ''scores.txt'', written = [''a'', ''b'', ''c''],
             stream_closed = True\<rparr>"
    by simp
  ultimately show ?thesis using i s by simp
qed

text \<open>
  Claim C8 as stated includes the paths on which an error is raised in the loop. There is
  no \<^verbatim>\<open>try\<close> around the loops: when the model raises on the second batch, \<^verbatim>\<open>infer\<close> and
  \<^verbatim>\<open>score\<close> end with that exception, the first batch written and the file still open.
\<close>

theorem stream_closed_counterexample:
  "infer (Some ''out.txt'') False
     [Inr \<lparr>examples = [\<lparr>index = None, content = ''a''\<rparr>], lengths = None, seconds = 1 / 4\<rparr>,
      Inl RuntimeError]
    = (Some RuntimeError,
       \<lparr>stream = \<lparr>stream_file = Some ''out.txt'', written = [''a''], stream_closed = False\<rparr>,
        ordered_writer = None, total_time = 0, total_tokens = 0, total_examples = 0\<rparr>)
   \<and> score LanguageModel None (Some ''scores.txt'') [Inr [''a'', ''b''], Inl RuntimeError]
    = (Some RuntimeError,
       Some \<lparr>stream_file = Some ''scores.txt'', written = [''a'', ''b''],
             stream_closed = False\<rparr>)"
  by code_simp

end
